theory Spec2Isabelle
  imports Main "HOL-Library.Word" "HOL-Library.Code_Target_Nat"
begin

unbundle bit_operations_syntax

section \<open>Data model of \<^verbatim>\<open>pkg/crypto/password_hash.go\<close>\<close>

text \<open>
  A Go \<^verbatim>\<open>string\<close> and a Go \<^verbatim>\<open>[]byte\<close> are both sequences of 8-bit bytes; both are
  modelled as lists of \<^typ>\<open>char\<close> (an 8-bit type), so \<^verbatim>\<open>[]byte(password)\<close> is the
  identity. Go's \<^verbatim>\<open>int\<close> is taken to be 64 bits wide.
\<close>

type_synonym bytes = "char list"
type_synonym uint8 = "8 word"
type_synonym uint32 = "32 word"

record Argon2IdHash =
  Time :: uint32
  Memory :: uint32
  Threads :: uint8
  KeyLen :: uint32
  SaltLen :: uint32

definition DefaultArgon2IDHash :: Argon2IdHash where
  "DefaultArgon2IDHash =
     \<lparr>Time = 2, Memory = 19 * 1024, Threads = 1, KeyLen = 32, SaltLen = 32\<rparr>"

text \<open>
  \<^verbatim>\<open>argon2.Version\<close> of \<^verbatim>\<open>golang.org/x/crypto/argon2\<close>: the constant \<^verbatim>\<open>0x13\<close>.
\<close>

definition Argon2Version :: int where
  "Argon2Version = 0x13"

text \<open>Errors of \<^verbatim>\<open>fmt.Sscanf\<close>, by the message or sentinel the scanner raises.\<close>

datatype scan_error =
    ErrUnexpectedEOF
  | EOF
  | InputDoesNotMatchFormat
  | UnexpectedNewline
  | ExpectedInteger
  | ValueOutOfRange string
  | IntegerOverflow string

text \<open>
  The error values that leave the package: the three sentinels of \<^verbatim>\<open>pkg/errormessage\<close>
  the file names, the error of \<^verbatim>\<open>rand.Read\<close>, the scanner's errors and
  \<^verbatim>\<open>base64.CorruptInputError\<close> with its offset.
\<close>

datatype error =
    ErrInvalidSaltLength
  | ErrInvalidEncodedHash
  | ErrIncompatibleArgon2Version
  | ErrRandRead
  | ScanError scan_error
  | CorruptInputError nat

text \<open>A call either returns a value or panics.\<close>

datatype 'a outcome = Panics | Returns 'a

section \<open>\<^verbatim>\<open>encoding/base64\<close>: \<^verbatim>\<open>StdEncoding\<close>\<close>

definition encodeStd :: string where
  "encodeStd = ''ABCDEFGHIJKLMNOPQRSTUVWXYZabcdefghijklmnopqrstuvwxyz0123456789+/''"

definition StdPadding :: char where
  "StdPadding = CHR ''=''"

text \<open>\<^verbatim>\<open>enc.encode[v&0x3F]\<close>\<close>

definition encode6 :: "nat \<Rightarrow> char" where
  "encode6 v = encodeStd ! (v AND 0x3F)"

text \<open>
  \<^verbatim>\<open>Encoding.Encode\<close> with padding: whole groups of three bytes, then the remaining
  one or two bytes.
\<close>

fun EncodeToString :: "bytes \<Rightarrow> string" where
  "EncodeToString [] = []"
| "EncodeToString [a] =
     (let val = push_bit 16 (of_char a :: nat)
      in [encode6 (drop_bit 18 val), encode6 (drop_bit 12 val), StdPadding, StdPadding])"
| "EncodeToString [a, b] =
     (let val = push_bit 16 (of_char a :: nat) OR push_bit 8 (of_char b)
      in [encode6 (drop_bit 18 val), encode6 (drop_bit 12 val), encode6 (drop_bit 6 val),
          StdPadding])"
| "EncodeToString (a # b # c # rest) =
     (let val = push_bit 16 (of_char a :: nat) OR push_bit 8 (of_char b) OR of_char c
      in encode6 (drop_bit 18 val) # encode6 (drop_bit 12 val) # encode6 (drop_bit 6 val) #
         encode6 val # EncodeToString rest)"

text \<open>
  \<^verbatim>\<open>enc.decodeMap\<close>: the index of a byte in the alphabet; \<^verbatim>\<open>0xff\<close> (here \<open>None\<close>)
  for every other byte.
\<close>

fun index_of :: "char \<Rightarrow> string \<Rightarrow> nat \<Rightarrow> nat option" where
  "index_of c [] i = None"
| "index_of c (x # xs) i = (if x = c then Some i else index_of c xs (Suc i))"

definition decodeMap :: "char \<Rightarrow> nat option" where
  "decodeMap c = index_of c encodeStd 0"

definition isNewline :: "char \<Rightarrow> bool" where
  "isNewline c \<longleftrightarrow> c = CHR 0x0A \<or> c = CHR 0x0D"

text \<open>\<^verbatim>\<open>for si < len(src) && (src[si] == '\n' || src[si] == '\r') { si++ }\<close>\<close>

fun skipNewlines :: "string \<Rightarrow> nat \<Rightarrow> string \<times> nat" where
  "skipNewlines [] si = ([], si)"
| "skipNewlines (c # cs) si = (if isNewline c then skipNewlines cs (Suc si) else (c # cs, si))"

text \<open>
  The tail of \<^verbatim>\<open>decodeQuantum\<close>: the 6-bit values read (missing ones are 0) are
  packed into 24 bits and the first \<open>dlen - 1\<close> bytes are written. \<^verbatim>\<open>StdEncoding\<close> is
  not strict, so the unused low bits are not inspected.
\<close>

definition quantumBytes :: "nat list \<Rightarrow> nat \<Rightarrow> bytes" where
  "quantumBytes dbuf dlen =
     (let d = dbuf @ replicate 4 0;
          val = push_bit 18 (d ! 0) OR push_bit 12 (d ! 1) OR push_bit 6 (d ! 2) OR (d ! 3);
          b2 = char_of (drop_bit 0 val); b1 = char_of (drop_bit 8 val);
          b0 = char_of (drop_bit 16 val)
      in take (dlen - 1) [b0, b1, b2])"

text \<open>
  \<^verbatim>\<open>decodeQuantum\<close>: \<open>j\<close> is the loop index, \<open>dbuf\<close> the values read so far, \<open>src\<close> the
  input from offset \<open>si\<close> on and \<open>n\<close> the length of the whole input. The result is the
  rest of the input, the new offset, the bytes written and the error.
\<close>

fun decodeQuantum ::
  "nat \<Rightarrow> nat list \<Rightarrow> string \<Rightarrow> nat \<Rightarrow> nat \<Rightarrow> string \<times> nat \<times> bytes \<times> error option" where
  "decodeQuantum j dbuf [] si n =
     (if j = 4 then ([], si, quantumBytes dbuf 4, None)
      else if j = 0 then ([], si, [], None)
      else ([], si, [], Some (CorruptInputError (si - j))))"
| "decodeQuantum j dbuf (c # src) si n =
     (if j = 4 then (c # src, si, quantumBytes dbuf 4, None)
      else
        (case decodeMap c of
           Some out \<Rightarrow> decodeQuantum (Suc j) (dbuf @ [out]) src (Suc si) n
         | None \<Rightarrow>
             if isNewline c then decodeQuantum j dbuf src (Suc si) n
             else if c \<noteq> StdPadding then (src, Suc si, [], Some (CorruptInputError si))
             else if j = 0 \<or> j = 1 then (src, Suc si, [], Some (CorruptInputError si))
             else if j = 2 then
               (case skipNewlines src (Suc si) of
                  ([], si') \<Rightarrow> ([], si', [], Some (CorruptInputError n))
                | (c' # src', si') \<Rightarrow>
                    if c' \<noteq> StdPadding
                    then (c' # src', si', [], Some (CorruptInputError (si' - 1)))
                    else
                      (case skipNewlines src' (Suc si') of
                         ([], si'') \<Rightarrow> ([], si'', quantumBytes dbuf j, None)
                       | (r, si'') \<Rightarrow>
                           (r, si'', quantumBytes dbuf j, Some (CorruptInputError si''))))
             else
               (case skipNewlines src (Suc si) of
                  ([], si') \<Rightarrow> ([], si', quantumBytes dbuf j, None)
                | (r, si') \<Rightarrow> (r, si', quantumBytes dbuf j, Some (CorruptInputError si')))))"

text \<open>
  \<^verbatim>\<open>Encoding.Decode\<close>: quantum after quantum until the input is used up or an
  error occurs. (The 8- and 4-byte fast paths of the library decode the same quanta.)
\<close>

function Decode :: "string \<Rightarrow> nat \<Rightarrow> nat \<Rightarrow> bytes \<times> error option" where
  "Decode [] si n = ([], None)"
| "Decode (c # src) si n =
     (case decodeQuantum 0 [] (c # src) si n of
        (src', si', out, Some e) \<Rightarrow> (out, Some e)
      | (src', si', out, None) \<Rightarrow>
          (case Decode src' si' n of (out', err) \<Rightarrow> (out @ out', err)))"
  by pat_completeness auto
termination
proof (relation "measure (\<lambda>(src, si, n). length src)")
  show "wf (measure (\<lambda>(src :: string, si :: nat, n :: nat). length src))"
    by simp
next
  fix c :: char and src :: string and si n :: nat and src' y si' z out err
  assume a: "(src', y) = decodeQuantum 0 [] (c # src) si n" "(si', z) = y"
    "(out, err) = z" "err = None"
  have sk: "skipNewlines xs k = (r, k') \<Longrightarrow> length r \<le> length xs" for xs k r k'
    by (induction xs k arbitrary: r k' rule: skipNewlines.induct)
       (auto split: if_splits simp: le_Suc_eq)
  have le: "decodeQuantum j dbuf s i m = (s', i', out', err') \<Longrightarrow> length s' \<le> length s"
    for j dbuf s i m s' i' out' err'
  proof (induction j dbuf s i m arbitrary: s' i' out' err' rule: decodeQuantum.induct)
    case (1 j dbuf si n)
    then show ?case by (simp split: if_splits)
  next
    case (2 j dbuf c src si n)
    show ?case
    proof (cases "j = 4")
      case True
      with "2.prems" show ?thesis by simp
    next
      case j4: False
      show ?thesis
      proof (cases "decodeMap c")
        case (Some v)
        with j4 "2.prems"
        have "decodeQuantum (Suc j) (dbuf @ [v]) src (Suc si) n = (s', i', out', err')"
          by simp
        from "2.IH"(2) [OF j4 Some this] show ?thesis by simp
      next
        case None
        show ?thesis
        proof (cases "isNewline c")
          case True
          with j4 None "2.prems"
          have "decodeQuantum j dbuf src (Suc si) n = (s', i', out', err')"
            by simp
          from "2.IH"(1) [OF j4 None True this] show ?thesis by simp
        next
          case False
          with j4 None "2.prems" show ?thesis
            by (auto split: if_splits prod.splits list.splits dest!: sk)
        qed
      qed
    qed
  qed
  from a have dq: "decodeQuantum 0 [] (c # src) si n = (src', si', out, None)"
    by simp
  have "length src' < Suc (length src)"
  proof (cases "decodeMap c")
    case (Some v)
    with dq have "decodeQuantum (Suc 0) [v] src (Suc si) n = (src', si', out, None)" by simp
    from le [OF this] show ?thesis by simp
  next
    case None
    show ?thesis
    proof (cases "isNewline c")
      case True
      with None dq have "decodeQuantum 0 [] src (Suc si) n = (src', si', out, None)" by simp
      from le [OF this] show ?thesis by simp
    next
      case False
      with None dq show ?thesis by (auto split: if_splits)
    qed
  qed
  then show "((src', si', n), c # src, si, n) \<in> measure (\<lambda>(src, si, n). length src)"
    by simp
qed

text \<open>\<^verbatim>\<open>Encoding.DecodeString\<close>: the bytes decoded so far and the error.\<close>

definition DecodeString :: "string \<Rightarrow> bytes \<times> error option" where
  "DecodeString s = Decode s 0 (length s)"

section \<open>\<^verbatim>\<open>strings.Split\<close> with a one-byte separator\<close>

text \<open>
  \<open>cur\<close> is the field being read. The result always has one field more than the
  input has separators, so the empty string splits into one empty field.
\<close>

fun splitFrom :: "string \<Rightarrow> string \<Rightarrow> char \<Rightarrow> string list" where
  "splitFrom cur [] sep = [cur]"
| "splitFrom cur (c # cs) sep =
     (if c = sep then cur # splitFrom [] cs sep else splitFrom (cur @ [c]) cs sep)"

definition strings_Split :: "string \<Rightarrow> char \<Rightarrow> string list" where
  "strings_Split s sep = splitFrom [] s sep"

section \<open>\<^verbatim>\<open>fmt\<close>: the verb \<^verbatim>\<open>%d\<close>\<close>

definition decimalDigits :: string where
  "decimalDigits = ''0123456789''"

text \<open>\<^verbatim>\<open>%d\<close> in \<^verbatim>\<open>Sprintf\<close> for an unsigned value, and for a signed one.\<close>

fun fmt_d :: "nat \<Rightarrow> string" where
  "fmt_d n = (if n < 10 then [decimalDigits ! n] else fmt_d (n div 10) @ [decimalDigits ! (n mod 10)])"

declare fmt_d.simps [simp del]

definition fmt_d_int :: "int \<Rightarrow> string" where
  "fmt_d_int i = (if i < 0 then CHR ''-'' # fmt_d (nat (- i)) else fmt_d (nat i))"

text \<open>
  Scanning. \<^verbatim>\<open>Sscanf\<close> stops reading after \<open>2\<^sup>3\<^sup>0\<close> bytes of its input; the model has no
  such bound and describes the scanner on shorter fields.

  \<^verbatim>\<open>ss.advance\<close> on a run of literal format bytes (neither of the two formats has a
  space or \<^verbatim>\<open>%%\<close>): each must equal the next input byte.
\<close>

fun advance :: "string \<Rightarrow> string \<Rightarrow> scan_error + string" where
  "advance [] s = Inr s"
| "advance (f # fs) [] = Inl ErrUnexpectedEOF"
| "advance (f # fs) (c # cs) = (if f = c then advance fs cs else Inl InputDoesNotMatchFormat)"

text \<open>
  The scanner reads its input as UTF-8 runes and \<^verbatim>\<open>isSpace\<close> looks the rune up in a
  table of ranges: \<^verbatim>\<open>U+0009\<close> to \<^verbatim>\<open>U+000D\<close>, \<^verbatim>\<open>U+0020\<close>, \<^verbatim>\<open>U+0085\<close>, \<^verbatim>\<open>U+00A0\<close>,
  \<^verbatim>\<open>U+1680\<close>, \<^verbatim>\<open>U+2000\<close> to \<^verbatim>\<open>U+200A\<close>, \<^verbatim>\<open>U+2028\<close>, \<^verbatim>\<open>U+2029\<close>, \<^verbatim>\<open>U+202F\<close>,
  \<^verbatim>\<open>U+205F\<close> and \<^verbatim>\<open>U+3000\<close>. Here the table holds the UTF-8 encoding of each of these
  runes (a rune has one valid encoding, and invalid bytes read as \<^verbatim>\<open>U+FFFD\<close>, no space).
\<close>

definition spaceRunes :: "string list" where
  "spaceRunes =
     [[CHR 0x09], [CHR 0x0A], [CHR 0x0B], [CHR 0x0C], [CHR 0x0D], [CHR 0x20],
      [CHR 0xC2, CHR 0x85], [CHR 0xC2, CHR 0xA0], [CHR 0xE1, CHR 0x9A, CHR 0x80],
      [CHR 0xE2, CHR 0x80, CHR 0x80], [CHR 0xE2, CHR 0x80, CHR 0x81],
      [CHR 0xE2, CHR 0x80, CHR 0x82], [CHR 0xE2, CHR 0x80, CHR 0x83],
      [CHR 0xE2, CHR 0x80, CHR 0x84], [CHR 0xE2, CHR 0x80, CHR 0x85],
      [CHR 0xE2, CHR 0x80, CHR 0x86], [CHR 0xE2, CHR 0x80, CHR 0x87],
      [CHR 0xE2, CHR 0x80, CHR 0x88], [CHR 0xE2, CHR 0x80, CHR 0x89],
      [CHR 0xE2, CHR 0x80, CHR 0x8A], [CHR 0xE2, CHR 0x80, CHR 0xA8],
      [CHR 0xE2, CHR 0x80, CHR 0xA9], [CHR 0xE2, CHR 0x80, CHR 0xAF],
      [CHR 0xE2, CHR 0x81, CHR 0x9F], [CHR 0xE3, CHR 0x80, CHR 0x80]]"

text \<open>The number of bytes of the space rune the input starts with; 0 when it starts with none.\<close>

definition spaceRuneLen :: "string \<Rightarrow> nat" where
  "spaceRuneLen s =
     (case find (\<lambda>r. take (length r) s = r) spaceRunes of None \<Rightarrow> 0 | Some r \<Rightarrow> length r)"

text \<open>
  \<^verbatim>\<open>ss.SkipSpace\<close> with \<^verbatim>\<open>nlIsSpace = false\<close> (as \<^verbatim>\<open>Sscanf\<close> sets it): spaces are
  skipped, a newline is an error.
\<close>

function SkipSpace :: "string \<Rightarrow> scan_error + string" where
  "SkipSpace s =
     (if s = [] then Inr []
      else if hd s = CHR 0x0A then Inl UnexpectedNewline
      else if spaceRuneLen s = 0 then Inr s
      else SkipSpace (drop (spaceRuneLen s) s))"
  by pat_completeness auto
termination
proof (relation "measure length")
  show "wf (measure (length :: string \<Rightarrow> nat))"
    by simp
next
  fix s :: string
  assume "s \<noteq> []" "spaceRuneLen s \<noteq> 0"
  then show "(drop (spaceRuneLen s) s, s) \<in> measure length"
    by simp
qed

declare SkipSpace.simps [simp del]

definition isDigit :: "char \<Rightarrow> bool" where
  "isDigit c \<longleftrightarrow> c \<in> set decimalDigits"

definition digitVal :: "char \<Rightarrow> nat" where
  "digitVal c = of_char c - of_char (CHR ''0'')"

text \<open>
  \<^verbatim>\<open>ss.scanNumber(decimalDigits, false)\<close>: the input must not be at its end and must
  start with a digit; the token is the longest run of digits.
\<close>

definition scanNumber :: "string \<Rightarrow> scan_error + string \<times> string" where
  "scanNumber s =
     (if s = [] then Inl EOF
      else if \<not> isDigit (hd s) then Inl ExpectedInteger
      else Inr (takeWhile isDigit s, dropWhile isDigit s))"

text \<open>\<^verbatim>\<open>strconv.ParseUint(tok, 10, 64)\<close> on a token of digits.\<close>

definition ParseUint :: "string \<Rightarrow> scan_error + nat" where
  "ParseUint tok =
     (let un = foldl (\<lambda>n c. n * 10 + digitVal c) 0 tok
      in if un \<ge> 2 ^ 64 then Inl (ValueOutOfRange tok) else Inr un)"

text \<open>\<^verbatim>\<open>strconv.ParseInt(tok, 10, 64)\<close> on a token of digits after an optional sign.\<close>

definition ParseInt :: "string \<Rightarrow> scan_error + int" where
  "ParseInt tok =
     (let neg = (tok \<noteq> [] \<and> hd tok = CHR ''-'');
          ds = (if tok \<noteq> [] \<and> (hd tok = CHR ''+'' \<or> hd tok = CHR ''-'') then tl tok else tok);
          un = foldl (\<lambda>n c. n * 10 + digitVal c) 0 ds
      in if \<not> neg \<and> un \<ge> 2 ^ 63 then Inl (ValueOutOfRange tok)
         else if neg \<and> un > 2 ^ 63 then Inl (ValueOutOfRange tok)
         else Inr (if neg then - int un else int un))"

text \<open>
  \<^verbatim>\<open>ss.scanInt('d', 64)\<close>: spaces, an optional sign, digits. The value and the rest of
  the input.
\<close>

definition scanInt :: "string \<Rightarrow> scan_error + int \<times> string" where
  "scanInt s =
     (case SkipSpace s of
        Inl e \<Rightarrow> Inl e
      | Inr s1 \<Rightarrow>
          if s1 = [] then Inl EOF
          else
            (let sgn = (if hd s1 = CHR ''+'' \<or> hd s1 = CHR ''-'' then [hd s1] else []);
                 s2 = drop (length sgn) s1
             in case scanNumber s2 of
                  Inl e \<Rightarrow> Inl e
                | Inr (digits, rest) \<Rightarrow>
                    (case ParseInt (sgn @ digits) of
                       Inl e \<Rightarrow> Inl e
                     | Inr i \<Rightarrow> Inr (i, rest))))"

text \<open>
  \<^verbatim>\<open>ss.scanUint('d', bitSize)\<close>: spaces, digits (no sign), and the check that the
  value fits \<open>bitSize\<close> bits.
\<close>

definition scanUint :: "nat \<Rightarrow> string \<Rightarrow> scan_error + nat \<times> string" where
  "scanUint bitSize s =
     (case SkipSpace s of
        Inl e \<Rightarrow> Inl e
      | Inr s1 \<Rightarrow>
          if s1 = [] then Inl EOF
          else
            (case scanNumber s1 of
               Inl e \<Rightarrow> Inl e
             | Inr (tok, rest) \<Rightarrow>
                 (case ParseUint tok of
                    Inl e \<Rightarrow> Inl e
                  | Inr i \<Rightarrow>
                      if i \<ge> 2 ^ bitSize then Inl (IntegerOverflow tok) else Inr (i, rest))))"

text \<open>
  One \<^verbatim>\<open>%d\<close> of \<^verbatim>\<open>doScanf\<close>: it skips spaces itself and then scans the operand.
\<close>

definition verb_d_int :: "string \<Rightarrow> scan_error + int \<times> string" where
  "verb_d_int s = (case SkipSpace s of Inl e \<Rightarrow> Inl e | Inr s1 \<Rightarrow> scanInt s1)"

definition verb_d_uint :: "nat \<Rightarrow> string \<Rightarrow> scan_error + nat \<times> string" where
  "verb_d_uint bitSize s = (case SkipSpace s of Inl e \<Rightarrow> Inl e | Inr s1 \<Rightarrow> scanUint bitSize s1)"

text \<open>
  \<^verbatim>\<open>fmt.Sscanf(s, "v=%d", &version)\<close> with \<^verbatim>\<open>version int\<close>. Input after the number is
  not looked at.
\<close>

definition Sscanf_version :: "string \<Rightarrow> scan_error + int" where
  "Sscanf_version s =
     (case advance ''v='' s of
        Inl e \<Rightarrow> Inl e
      | Inr s1 \<Rightarrow> (case verb_d_int s1 of Inl e \<Rightarrow> Inl e | Inr (version, _) \<Rightarrow> Inr version))"

text \<open>
  \<^verbatim>\<open>fmt.Sscanf(s, "m=%d,t=%d,p=%d", &a.Memory, &a.Time, &a.Threads)\<close> with operands of
  type \<^verbatim>\<open>uint32\<close>, \<^verbatim>\<open>uint32\<close> and \<^verbatim>\<open>uint8\<close>.
\<close>

definition Sscanf_params :: "string \<Rightarrow> scan_error + uint32 \<times> uint32 \<times> uint8" where
  "Sscanf_params s =
     (case advance ''m='' s of
        Inl e \<Rightarrow> Inl e
      | Inr s1 \<Rightarrow>
     (case verb_d_uint 32 s1 of
        Inl e \<Rightarrow> Inl e
      | Inr (m, s2) \<Rightarrow>
     (case advance '',t='' s2 of
        Inl e \<Rightarrow> Inl e
      | Inr s3 \<Rightarrow>
     (case verb_d_uint 32 s3 of
        Inl e \<Rightarrow> Inl e
      | Inr (t, s4) \<Rightarrow>
     (case advance '',p='' s4 of
        Inl e \<Rightarrow> Inl e
      | Inr s5 \<Rightarrow>
     (case verb_d_uint 8 s5 of
        Inl e \<Rightarrow> Inl e
      | Inr (p, _) \<Rightarrow> Inr (of_nat m, of_nat t, of_nat p)))))))"

section \<open>\<^verbatim>\<open>crypto/subtle\<close>\<close>

text \<open>\<^verbatim>\<open>return int((uint32(x^y) - 1) >> 31)\<close>\<close>

definition ConstantTimeByteEq :: "uint8 \<Rightarrow> uint8 \<Rightarrow> int" where
  "ConstantTimeByteEq x y = uint (drop_bit 31 ((ucast (x XOR y) :: uint32) - 1))"

text \<open>
  \<^verbatim>\<open>ConstantTimeCompare\<close>: 0 at once for slices of different lengths; otherwise every
  pair of bytes is XORed into \<open>v\<close> and the result is whether \<open>v\<close> stayed 0.
\<close>

definition ConstantTimeCompare :: "bytes \<Rightarrow> bytes \<Rightarrow> int" where
  "ConstantTimeCompare x y =
     (if length x \<noteq> length y then 0
      else ConstantTimeByteEq
             (foldl (\<lambda>v (xi, yi). v OR (of_char xi XOR of_char yi)) 0 (zip x y)) 0)"

section \<open>The environment of a call\<close>

text \<open>
  What the functions touch outside their arguments: the bytes the secure random
  source (\<^verbatim>\<open>crypto/rand\<close>) will deliver next, the number of times the key derivation
  \<^verbatim>\<open>argon2.IDKey\<close> has been invoked, and the lines written by \<^verbatim>\<open>log.Printf\<close>.
\<close>

record world =
  entropy :: bytes
  derivations :: nat
  log_lines :: "string list"

text \<open>
  \<^verbatim>\<open>rand.Read(b)\<close> for a buffer of \<open>n\<close> bytes: it fills the whole buffer or fails. A
  source that has fewer than \<open>n\<close> bytes left stands for a failing source.
\<close>

definition rand_Read :: "nat \<Rightarrow> world \<Rightarrow> (bytes \<times> error option) \<times> world" where
  "rand_Read n w =
     (if length (entropy w) < n then ((replicate n (CHR 0x00), Some ErrRandRead), w)
      else ((take n (entropy w), None), w\<lparr>entropy := drop n (entropy w)\<rparr>))"

text \<open>
  \<^verbatim>\<open>argon2.IDKey(password, salt, time, memory, threads, keyLen)\<close> belongs to
  \<^verbatim>\<open>golang.org/x/crypto/argon2\<close>; the functions below take it as the parameter \<open>kdf\<close>,
  a deterministic function of its six arguments that yields the derived key or
  panics (\<open>None\<close>).
\<close>

type_synonym idkey = "bytes \<Rightarrow> bytes \<Rightarrow> uint32 \<Rightarrow> uint32 \<Rightarrow> uint8 \<Rightarrow> uint32 \<Rightarrow> bytes option"

definition argon2_IDKey ::
  "idkey \<Rightarrow> bytes \<Rightarrow> bytes \<Rightarrow> uint32 \<Rightarrow> uint32 \<Rightarrow> uint8 \<Rightarrow> uint32 \<Rightarrow> world
     \<Rightarrow> bytes option \<times> world" where
  "argon2_IDKey kdf password salt time memory threads keyLen w =
     (kdf password salt time memory threads keyLen, w\<lparr>derivations := Suc (derivations w)\<rparr>)"

section \<open>The functions of \<^verbatim>\<open>password_hash.go\<close>\<close>

text \<open>
  \<^verbatim>\<open>validateSaltLength\<close>. \<^verbatim>\<open>uint32(len(salt))\<close> keeps the low 32 bits of the length.
\<close>

definition validateSaltLength :: "bytes \<Rightarrow> uint32 \<Rightarrow> world \<Rightarrow> error option \<times> world" where
  "validateSaltLength salt expectedSaltLen w =
     (if length salt > 0 \<and> (of_nat (length salt) :: uint32) \<noteq> expectedSaltLen
      then (Some ErrInvalidSaltLength,
            w\<lparr>log_lines := log_lines w @
               [''salt length is incorrect: expected '' @ fmt_d (unat expectedSaltLen) @
                '' bytes, got '' @ fmt_d (length salt) @ '' bytes'']\<rparr>)
      else (None, w))"

definition encodeHashComponents :: "bytes \<Rightarrow> bytes \<Rightarrow> Argon2IdHash \<Rightarrow> string" where
  "encodeHashComponents salt hash a =
     (let base64Salt = EncodeToString salt;
          base64Hash = EncodeToString hash
      in ''$argon2id$v='' @ fmt_d_int Argon2Version @ ''$m='' @ fmt_d (unat (Memory a)) @
         '',t='' @ fmt_d (unat (Time a)) @ '',p='' @ fmt_d (unat (Threads a)) @
         ''$'' @ base64Salt @ ''$'' @ base64Hash)"

definition generateBytes :: "uint32 \<Rightarrow> world \<Rightarrow> (bytes \<times> error option) \<times> world" where
  "generateBytes len w =
     (case rand_Read (unat len) w of
        ((secret, Some err), w') \<Rightarrow> (([], Some err), w')
      | ((secret, None), w') \<Rightarrow> ((secret, None), w'))"

definition GenerateHash ::
  "idkey \<Rightarrow> Argon2IdHash \<Rightarrow> bytes \<Rightarrow> bytes \<Rightarrow> world \<Rightarrow> (string \<times> error option) outcome \<times> world"
  where
  "GenerateHash kdf a password salt w =
     (case validateSaltLength salt (SaltLen a) w of
        (Some err, w1) \<Rightarrow> (Returns ([], Some err), w1)
      | (None, w1) \<Rightarrow>
          (case (if length salt = 0 then generateBytes (SaltLen a) w1 else ((salt, None), w1)) of
             ((_, Some err), w2) \<Rightarrow> (Returns ([], Some err), w2)
           | ((salt', None), w2) \<Rightarrow>
               (case argon2_IDKey kdf password salt' (Time a) (Memory a) (Threads a) (KeyLen a) w2
                of
                  (None, w3) \<Rightarrow> (Panics, w3)
                | (Some hash, w3) \<Rightarrow> (Returns (encodeHashComponents salt' hash a, None), w3))))"

text \<open>
  \<^verbatim>\<open>decodeHash\<close>. Every error return of the source hands back \<^verbatim>\<open>nil\<close> for the
  parameters, the salt and the hash, so the result is either the error or the three
  values. The scheme field \<^verbatim>\<open>value[1]\<close> is never read, and the version is scanned and
  not used.
\<close>

definition decodeHash :: "string \<Rightarrow> error + Argon2IdHash \<times> bytes \<times> bytes" where
  "decodeHash encodedHash =
     (let value = strings_Split encodedHash (CHR ''$'')
      in if length value \<noteq> 6 then Inl ErrInvalidEncodedHash
         else
     (case Sscanf_version (value ! 2) of
        Inl _ \<Rightarrow> Inl ErrIncompatibleArgon2Version
      | Inr version \<Rightarrow>
     (case Sscanf_params (value ! 3) of
        Inl err \<Rightarrow> Inl (ScanError err)
      | Inr (memory, time, threads) \<Rightarrow>
     (case DecodeString (value ! 4) of
        (_, Some err) \<Rightarrow> Inl err
      | (salt, None) \<Rightarrow>
     (case DecodeString (value ! 5) of
        (_, Some err) \<Rightarrow> Inl err
      | (hash, None) \<Rightarrow>
          Inr (\<lparr>Time = time, Memory = memory, Threads = threads,
                KeyLen = of_nat (length hash), SaltLen = of_nat (length salt)\<rparr>,
               salt, hash))))))"

definition VerifyHash ::
  "idkey \<Rightarrow> string \<Rightarrow> string \<Rightarrow> world \<Rightarrow> (bool \<times> error option) outcome \<times> world" where
  "VerifyHash kdf password encodedHash w =
     (case decodeHash encodedHash of
        Inl err \<Rightarrow> (Returns (False, Some err), w)
      | Inr (a, salt, hash) \<Rightarrow>
          (case argon2_IDKey kdf password salt (Time a) (Memory a) (Threads a) (KeyLen a) w of
             (None, w') \<Rightarrow> (Panics, w')
           | (Some otherHash, w') \<Rightarrow>
               if ConstantTimeCompare hash otherHash = 1 then (Returns (True, None), w')
               else (Returns (False, None), w')))"

section \<open>A derivation function to run the model on concrete inputs\<close>

text \<open>
  A stand-in for \<^verbatim>\<open>argon2.IDKey\<close> with the interface the library documents: it
  panics when \<open>time < 1\<close> or \<open>threads < 1\<close> and otherwise yields \<open>keyLen\<close> bytes, here
  the password, then the salt, then zero bytes, cut to length.
\<close>

definition sample_IDKey :: idkey where
  "sample_IDKey password salt time memory threads keyLen =
     (if time < 1 \<or> threads < 1 then None
      else Some (take (unat keyLen) (password @ salt @ replicate (unat keyLen) (CHR 0x00))))"

definition sample_params :: Argon2IdHash where
  "sample_params = \<lparr>Time = 1, Memory = 8, Threads = 1, KeyLen = 5, SaltLen = 4\<rparr>"

definition sample_world :: world where
  "sample_world = \<lparr>entropy = ''0123456789abcdefghijklmnopqrstuvwxyz'', derivations = 0, log_lines = []\<rparr>"

text \<open>The parameter field of the encoded string, as \<^verbatim>\<open>Sprintf\<close> writes it.\<close>

definition paramsField :: "Argon2IdHash \<Rightarrow> string" where
  "paramsField a =
     ''m='' @ fmt_d (unat (Memory a)) @ '',t='' @ fmt_d (unat (Time a)) @
     '',p='' @ fmt_d (unat (Threads a))"

text \<open>
  What the library documents of \<^verbatim>\<open>argon2.IDKey\<close>: a derived key has \<open>keyLen\<close> bytes.
\<close>

definition keyLen_respected :: "idkey \<Rightarrow> bool" where
  "keyLen_respected kdf \<longleftrightarrow>
     (\<forall>password salt time memory threads keyLen hash.
        kdf password salt time memory threads keyLen = Some hash \<longrightarrow>
        length hash = unat keyLen)"

text \<open>
  The number of low bits of the character at position \<open>i\<close> of a base64 string that the
  decoder does not use: four when \<^verbatim>\<open>==\<close> follows the character and ends the string (the
  group carries one byte), two when a single \<^verbatim>\<open>=\<close> does (two bytes), none otherwise.
\<close>

definition unusedBits :: "string \<Rightarrow> nat \<Rightarrow> nat" where
  "unusedBits s i =
     (if drop (Suc i) s = [StdPadding, StdPadding] then 4
      else if drop (Suc i) s = [StdPadding] then 2
      else 0)"

section \<open>Facts about the base64 model\<close>

lemma length_encodeStd: "length encodeStd = 64"
  by (simp add: encodeStd_def)

lemma and_63_mod: "(v :: nat) AND 0x3F = v mod 64"
proof -
  have "v AND mask 6 = v mod 2 ^ 6"
    by (simp add: take_bit_eq_mask [symmetric] take_bit_eq_mod)
  then show ?thesis by (simp add: mask_eq_exp_minus_1)
qed

lemma index_of_nth:
  "distinct xs \<Longrightarrow> k < length xs \<Longrightarrow> index_of (xs ! k) xs i = Some (i + k)"
proof (induction xs arbitrary: k i)
  case Nil
  then show ?case by simp
next
  case (Cons x xs)
  show ?case
  proof (cases k)
    case 0
    then show ?thesis by simp
  next
    case (Suc k')
    with Cons.prems have "xs ! k' \<noteq> x" by auto
    with Suc Cons show ?thesis by simp
  qed
qed

lemma distinct_encodeStd: "distinct encodeStd"
  by (simp add: encodeStd_def)

lemma decodeMap_encode6: "decodeMap (encode6 v) = Some (v mod 64)"
  using index_of_nth [OF distinct_encodeStd, of "v mod 64" 0]
  by (simp add: decodeMap_def encode6_def and_63_mod length_encodeStd)

lemma encode6_in_alphabet: "encode6 v \<in> set encodeStd"
  by (simp add: encode6_def and_63_mod length_encodeStd)


lemma push_bit_or_add:
  fixes a b :: nat
  assumes "b < 2 ^ n"
  shows "push_bit n a OR b = a * 2 ^ n + b"
proof -
  from assms have "take_bit n b = b"
    by (simp add: take_bit_nat_eq_self)
  then have lt: "bit b k \<Longrightarrow> k < n" for k
    by (metis bit_take_bit_iff)
  have "push_bit n a + b = push_bit n a OR b"
    by (rule disjunctive_add) (auto simp: bit_push_bit_iff dest: lt)
  then show ?thesis
    by (simp add: push_bit_eq_mult)
qed

lemma pack3:
  fixes a b c :: nat
  assumes "a < 256" "b < 256" "c < 256"
  shows "push_bit 16 a OR push_bit 8 b OR c = a * 65536 + b * 256 + c"
proof -
  have "push_bit 8 b OR c = b * 256 + c"
    using push_bit_or_add [of c 8 b] assms by simp
  moreover have "b * 256 + c < 2 ^ 16"
    using assms by simp
  ultimately show ?thesis
    using push_bit_or_add [of "b * 256 + c" 16 a] by simp
qed

lemma pack4:
  fixes d0 d1 d2 d3 :: nat
  assumes "d0 < 64" "d1 < 64" "d2 < 64" "d3 < 64"
  shows "push_bit 18 d0 OR push_bit 12 d1 OR push_bit 6 d2 OR d3
         = d0 * 262144 + d1 * 4096 + d2 * 64 + d3"
proof -
  have 1: "push_bit 6 d2 OR d3 = d2 * 64 + d3"
    using push_bit_or_add [of d3 6 d2] assms by simp
  have "d2 * 64 + d3 < 2 ^ 12"
    using assms by simp
  then have 2: "push_bit 12 d1 OR (d2 * 64 + d3) = d1 * 4096 + (d2 * 64 + d3)"
    using push_bit_or_add [of "d2 * 64 + d3" 12 d1] by simp
  have "d1 * 4096 + (d2 * 64 + d3) < 2 ^ 18"
    using assms by simp
  then have "push_bit 18 d0 OR (d1 * 4096 + (d2 * 64 + d3)) = d0 * 262144 + (d1 * 4096 + (d2 * 64 + d3))"
    using push_bit_or_add [of "d1 * 4096 + (d2 * 64 + d3)" 18 d0] by simp
  with 1 2 show ?thesis by simp
qed

lemma split64:
  fixes v :: nat
  shows "v div 64 mod 64 * 64 + v mod 64 = v mod 4096"
    and "v div 4096 mod 64 * 4096 + v mod 4096 = v mod 262144"
    and "v div 262144 mod 64 * 262144 + v mod 262144 = v mod 16777216"
  using mod_mult2_eq [of v 64 64] mod_mult2_eq [of v 4096 64] mod_mult2_eq [of v 262144 64]
  by simp_all

lemma repack64:
  fixes v :: nat
  assumes "v < 16777216"
  shows "v div 262144 mod 64 * 262144 + v div 4096 mod 64 * 4096 + v div 64 mod 64 * 64 + v mod 64 = v"
proof -
  have "v div 262144 < 64"
    using assms by simp
  then have "v div 262144 mod 64 = v div 262144"
    by simp
  moreover have "v div 262144 * 262144 + v mod 262144 = v"
    by simp
  ultimately show ?thesis
    using split64(1,2) [of v] by linarith
qed

lemma byte_of_pack:
  fixes a b c :: nat
  assumes "a < 256" "b < 256" "c < 256"
  shows "(a * 65536 + b * 256 + c) div 65536 = a"
    and "(a * 65536 + b * 256 + c) div 256 mod 256 = b"
    and "(a * 65536 + b * 256 + c) mod 256 = c"
proof -
  have "b * 256 + c < 65536" using assms by simp
  then show "(a * 65536 + b * 256 + c) div 65536 = a" by simp
  have "(a * 65536 + b * 256 + c) div 256 = a * 256 + b"
    using assms by simp
  then show "(a * 65536 + b * 256 + c) div 256 mod 256 = b"
    using assms by simp
  have "a * 65536 + b * 256 + c = (a * 256 + b) * 256 + c"
    by simp
  then show "(a * 65536 + b * 256 + c) mod 256 = c"
    using assms by (simp only: mod_mult_self3 mod_less)
qed


lemma dbuf_nth:
  "([d0, d1, d2, d3] @ replicate 4 (0::nat)) ! 0 = d0"
  "([d0, d1, d2, d3] @ replicate 4 (0::nat)) ! 1 = d1"
  "([d0, d1, d2, d3] @ replicate 4 (0::nat)) ! 2 = d2"
  "([d0, d1, d2, d3] @ replicate 4 (0::nat)) ! 3 = d3"
  "([d0, d1, d2] @ replicate 4 (0::nat)) ! 0 = d0"
  "([d0, d1, d2] @ replicate 4 (0::nat)) ! 1 = d1"
  "([d0, d1, d2] @ replicate 4 (0::nat)) ! 2 = d2"
  "([d0, d1, d2] @ replicate 4 (0::nat)) ! 3 = 0"
  "([d0, d1] @ replicate 4 (0::nat)) ! 0 = d0"
  "([d0, d1] @ replicate 4 (0::nat)) ! 1 = d1"
  "([d0, d1] @ replicate 4 (0::nat)) ! 2 = 0"
  "([d0, d1] @ replicate 4 (0::nat)) ! 3 = 0"
  by (simp_all add: numeral_eq_Suc)

text \<open>The bytes of a quantum, from the values of its characters.\<close>

lemma quantumBytes4:
  assumes "d0 < 64" "d1 < 64" "d2 < 64" "d3 < 64"
  defines "v \<equiv> d0 * 262144 + d1 * 4096 + d2 * 64 + d3"
  shows "quantumBytes [d0, d1, d2, d3] 4 = [char_of (v div 65536), char_of (v div 256), char_of v]"
proof -
  have "push_bit 18 d0 OR push_bit 12 d1 OR push_bit 6 d2 OR d3 = v"
    unfolding v_def by (rule pack4 [OF assms(1-4)])
  then show ?thesis
    unfolding quantumBytes_def Let_def dbuf_nth
    by (simp add: drop_bit_eq_div)
qed

lemma quantumBytes3:
  assumes "d0 < 64" "d1 < 64" "d2 < 64"
  defines "v \<equiv> d0 * 262144 + d1 * 4096 + d2 * 64"
  shows "quantumBytes [d0, d1, d2] 3 = [char_of (v div 65536), char_of (v div 256)]"
proof -
  have "push_bit 18 d0 OR push_bit 12 d1 OR push_bit 6 d2 OR 0 = v"
    unfolding v_def using pack4 [OF assms(1-3), of 0] by simp
  then show ?thesis
    unfolding quantumBytes_def Let_def dbuf_nth
    by (simp add: drop_bit_eq_div)
qed

lemma quantumBytes2:
  assumes "d0 < 64" "d1 < 64"
  defines "v \<equiv> d0 * 262144 + d1 * 4096"
  shows "quantumBytes [d0, d1] 2 = [char_of (v div 65536)]"
proof -
  have "push_bit 18 d0 OR push_bit 12 d1 OR push_bit 6 0 OR 0 = v"
    unfolding v_def using pack4 [OF assms(1,2), of 0 0] by simp
  then show ?thesis
    unfolding quantumBytes_def Let_def dbuf_nth
    by (simp add: drop_bit_eq_div)
qed


lemma decodeMap_padding: "decodeMap StdPadding = None"
  by (simp add: decodeMap_def StdPadding_def encodeStd_def)

lemma not_isNewline_padding: "\<not> isNewline StdPadding"
  by (simp add: isNewline_def StdPadding_def)

lemma decodeQuantum_full:
  "decodeQuantum 0 [] (encode6 x0 # encode6 x1 # encode6 x2 # encode6 x3 # rest) si n
   = (rest, si + 4, quantumBytes [x0 mod 64, x1 mod 64, x2 mod 64, x3 mod 64] 4, None)"
  by (cases rest) (simp_all add: decodeMap_encode6)

lemma decodeQuantum_pad1:
  "decodeQuantum 0 [] [encode6 x0, encode6 x1, encode6 x2, StdPadding] si n
   = ([], si + 4, quantumBytes [x0 mod 64, x1 mod 64, x2 mod 64] 3, None)"
  by (simp add: decodeMap_encode6 decodeMap_padding not_isNewline_padding numeral_3_eq_3)

lemma decodeQuantum_pad2:
  "decodeQuantum 0 [] [encode6 x0, encode6 x1, StdPadding, StdPadding] si n
   = ([], si + 4, quantumBytes [x0 mod 64, x1 mod 64] 2, None)"
  by (simp add: decodeMap_encode6 decodeMap_padding not_isNewline_padding numeral_2_eq_2)


lemma of_char_lt: "(of_char c :: nat) < 256"
  by simp

text \<open>Decoding inverts encoding.\<close>

lemma Decode_EncodeToString: "Decode (EncodeToString x) si n = (x, None)"
proof (induction x arbitrary: si rule: EncodeToString.induct)
  case 1
  show ?case by simp
next
  case (2 a)
  define A where "A = (of_char a :: nat)"
  have A: "A < 256" by (simp add: A_def)
  define v where "v = A * 65536"
  have v: "v < 16777216" using A by (simp add: v_def)
  have enc: "EncodeToString [a] = [encode6 (v div 262144), encode6 (v div 4096), StdPadding, StdPadding]"
    by (simp add: Let_def push_bit_eq_mult drop_bit_eq_div A_def v_def)
  have "v div 64 mod 64 = 0" "v mod 64 = 0"
    by (simp_all add: v_def)
  with repack64 [OF v] have "v div 262144 mod 64 * 262144 + v div 4096 mod 64 * 4096 = v"
    by linarith
  with quantumBytes2 [of "v div 262144 mod 64" "v div 4096 mod 64"]
  have "quantumBytes [v div 262144 mod 64, v div 4096 mod 64] 2 = [char_of (v div 65536)]"
    by (simp only: mod_less_divisor zero_less_numeral)
  moreover have "v div 65536 = A" by (simp add: v_def)
  ultimately have "quantumBytes [v div 262144 mod 64, v div 4096 mod 64] 2 = [a]"
    by (simp add: A_def)
  then show ?case
    unfolding enc by (simp only: Decode.simps decodeQuantum_pad2) simp
next
  case (3 a b)
  define A where "A = (of_char a :: nat)"
  define B where "B = (of_char b :: nat)"
  have A: "A < 256" and B: "B < 256" by (simp_all add: A_def B_def)
  define v where "v = A * 65536 + B * 256 + 0"
  have v: "v < 16777216" using A B by (simp add: v_def)
  have "push_bit 16 A OR push_bit 8 B = v"
    using pack3 [OF A B, of 0] by (simp add: v_def)
  then have enc: "EncodeToString [a, b] =
      [encode6 (v div 262144), encode6 (v div 4096), encode6 (v div 64), StdPadding]"
    by (simp add: Let_def drop_bit_eq_div A_def B_def)
  have "v = (A * 1024 + B * 4) * 64" by (simp add: v_def)
  then have "v mod 64 = 0" by simp
  with repack64 [OF v]
  have "v div 262144 mod 64 * 262144 + v div 4096 mod 64 * 4096 + v div 64 mod 64 * 64 = v"
    by linarith
  with quantumBytes3 [of "v div 262144 mod 64" "v div 4096 mod 64" "v div 64 mod 64"]
  have "quantumBytes [v div 262144 mod 64, v div 4096 mod 64, v div 64 mod 64] 3
      = [char_of (v div 65536), char_of (v div 256)]"
    by (simp only: mod_less_divisor zero_less_numeral)
  moreover have "v div 65536 = A"
    unfolding v_def by (rule byte_of_pack(1) [OF A B]) simp
  moreover have "v div 256 mod 256 = B"
    unfolding v_def by (rule byte_of_pack(2) [OF A B]) simp
  then have "char_of (v div 256) = char_of B"
    by (metis char_of_mod_256)
  ultimately have "quantumBytes [v div 262144 mod 64, v div 4096 mod 64, v div 64 mod 64] 3 = [a, b]"
    by (simp add: A_def B_def)
  then show ?case
    unfolding enc by (simp only: Decode.simps decodeQuantum_pad1) simp
next
  case (4 a b c rest)
  define A where "A = (of_char a :: nat)"
  define B where "B = (of_char b :: nat)"
  define C where "C = (of_char c :: nat)"
  have A: "A < 256" and B: "B < 256" and C: "C < 256" by (simp_all add: A_def B_def C_def)
  define v where "v = A * 65536 + B * 256 + C"
  have v: "v < 16777216" using A B C by (simp add: v_def)
  have "push_bit 16 A OR push_bit 8 B OR C = v"
    using pack3 [OF A B C] by (simp add: v_def)
  then have enc: "EncodeToString (a # b # c # rest) =
      encode6 (v div 262144) # encode6 (v div 4096) # encode6 (v div 64) # encode6 v #
      EncodeToString rest"
    by (simp add: Let_def drop_bit_eq_div A_def B_def C_def)
  have "quantumBytes [v div 262144 mod 64, v div 4096 mod 64, v div 64 mod 64, v mod 64] 4
      = [char_of (v div 65536), char_of (v div 256), char_of v]"
    using repack64 [OF v]
      quantumBytes4 [of "v div 262144 mod 64" "v div 4096 mod 64" "v div 64 mod 64" "v mod 64"]
    by (simp only: mod_less_divisor zero_less_numeral)
  moreover have "v div 65536 = A"
    unfolding v_def by (rule byte_of_pack(1) [OF A B C])
  moreover have "v div 256 mod 256 = B"
    unfolding v_def by (rule byte_of_pack(2) [OF A B C])
  then have "char_of (v div 256) = char_of B"
    by (metis char_of_mod_256)
  moreover have "v mod 256 = C"
    unfolding v_def by (rule byte_of_pack(3) [OF A B C])
  then have "char_of v = char_of C"
    by (metis char_of_mod_256)
  ultimately have q: "quantumBytes [v div 262144 mod 64, v div 4096 mod 64, v div 64 mod 64, v mod 64] 4
      = [a, b, c]"
    by (simp add: A_def B_def C_def)
  show ?case
    unfolding enc by (simp only: Decode.simps decodeQuantum_full q) (simp add: "4.IH")
qed

lemma DecodeString_EncodeToString: "DecodeString (EncodeToString x) = (x, None)"
  by (simp add: DecodeString_def Decode_EncodeToString)

lemma EncodeToString_chars:
  "set (EncodeToString x) \<subseteq> set encodeStd \<union> {StdPadding}"
  by (induction x rule: EncodeToString.induct) (simp_all add: Let_def encode6_in_alphabet)

lemma length_EncodeToString: "length (EncodeToString x) mod 4 = 0"
  by (induction x rule: EncodeToString.induct) (simp_all add: Let_def)

lemma dollar_notin_EncodeToString: "CHR ''$'' \<notin> set (EncodeToString x)"
proof -
  have "CHR ''$'' \<notin> set encodeStd \<union> {StdPadding}"
    by (simp add: encodeStd_def StdPadding_def)
  with EncodeToString_chars [of x] show ?thesis by blast
qed

section \<open>Facts about the decimal model\<close>

lemma lt10_cases:
  "(d :: nat) < 10 \<Longrightarrow>
     d = 0 \<or> d = 1 \<or> d = 2 \<or> d = 3 \<or> d = 4 \<or> d = 5 \<or> d = 6 \<or> d = 7 \<or> d = 8 \<or> d = 9"
  by arith

lemma decimalDigits_nth_isDigit: "d < 10 \<Longrightarrow> isDigit (decimalDigits ! d)"
  by (drule lt10_cases) (elim disjE; simp add: isDigit_def decimalDigits_def)

lemma digitVal_nth: "d < 10 \<Longrightarrow> digitVal (decimalDigits ! d) = d"
  by (drule lt10_cases) (elim disjE; simp add: digitVal_def decimalDigits_def)

lemma fmt_d_nonempty: "fmt_d n \<noteq> []"
  by (subst fmt_d.simps) simp

lemma fmt_d_digits: "c \<in> set (fmt_d n) \<Longrightarrow> isDigit c"
proof (induction n arbitrary: c rule: fmt_d.induct)
  case (1 n)
  show ?case
  proof (cases "n < 10")
    case True
    with "1.prems" show ?thesis
      by (subst (asm) fmt_d.simps) (simp add: decimalDigits_nth_isDigit)
  next
    case False
    with "1.prems" have "c \<in> set (fmt_d (n div 10)) \<or> c = decimalDigits ! (n mod 10)"
      by (subst (asm) fmt_d.simps) auto
    with False "1.IH" show ?thesis
      by (auto simp: decimalDigits_nth_isDigit)
  qed
qed

lemma foldl_fmt_d: "foldl (\<lambda>n c. n * 10 + digitVal c) 0 (fmt_d n) = n"
proof (induction n rule: fmt_d.induct)
  case (1 n)
  show ?case
  proof (cases "n < 10")
    case True
    then show ?thesis
      by (subst fmt_d.simps) (simp add: digitVal_nth)
  next
    case False
    with "1.IH" show ?thesis
      by (subst fmt_d.simps) (simp add: digitVal_nth)
  qed
qed

lemma takeWhile_fmt_d:
  "rest = [] \<or> \<not> isDigit (hd rest) \<Longrightarrow> takeWhile isDigit (fmt_d n @ rest) = fmt_d n"
  by (cases rest) (auto simp: takeWhile_append fmt_d_digits takeWhile_eq_all_conv [THEN iffD2])

lemma dropWhile_fmt_d:
  "rest = [] \<or> \<not> isDigit (hd rest) \<Longrightarrow> dropWhile isDigit (fmt_d n @ rest) = rest"
  by (cases rest) (auto simp: dropWhile_append fmt_d_digits)

section \<open>Facts about \<^verbatim>\<open>strings.Split\<close>\<close>

lemma splitFrom_no_sep: "sep \<notin> set a \<Longrightarrow> splitFrom cur a sep = [cur @ a]"
  by (induction a arbitrary: cur) auto

lemma splitFrom_sep:
  "sep \<notin> set a \<Longrightarrow> splitFrom cur (a @ sep # b) sep = (cur @ a) # splitFrom [] b sep"
  by (induction a arbitrary: cur) auto

section \<open>Scanning what \<^verbatim>\<open>Sprintf\<close> wrote\<close>

lemma isDigit_elim:
  "isDigit c \<Longrightarrow>
     c = CHR ''0'' \<or> c = CHR ''1'' \<or> c = CHR ''2'' \<or> c = CHR ''3'' \<or> c = CHR ''4'' \<or>
     c = CHR ''5'' \<or> c = CHR ''6'' \<or> c = CHR ''7'' \<or> c = CHR ''8'' \<or> c = CHR ''9''"
  by (simp add: isDigit_def decimalDigits_def)

lemma spaceRuneLen_digit: "isDigit c \<Longrightarrow> spaceRuneLen (c # cs) = 0"
  by (drule isDigit_elim) (elim disjE; simp add: spaceRuneLen_def spaceRunes_def)

lemma digit_not_newline: "isDigit c \<Longrightarrow> c \<noteq> CHR 0x0A"
  by (drule isDigit_elim) (elim disjE; simp)

lemma SkipSpace_digit: "isDigit c \<Longrightarrow> SkipSpace (c # cs) = Inr (c # cs)"
  by (subst SkipSpace.simps) (simp add: spaceRuneLen_digit digit_not_newline)

lemma fmt_d_Cons: "\<exists>c cs. fmt_d n = c # cs \<and> isDigit c"
proof (cases "fmt_d n")
  case Nil
  with fmt_d_nonempty show ?thesis by blast
next
  case (Cons c cs)
  then have "c \<in> set (fmt_d n)" by simp
  then have "isDigit c" by (rule fmt_d_digits)
  with Cons show ?thesis by blast
qed

lemma fmt_d_hd_digit: "isDigit (hd (fmt_d n @ rest))"
proof -
  from fmt_d_Cons obtain c cs where "fmt_d n = c # cs" "isDigit c" by blast
  then show ?thesis by simp
qed

lemma SkipSpace_fmt_d: "SkipSpace (fmt_d n @ rest) = Inr (fmt_d n @ rest)"
proof -
  from fmt_d_Cons obtain c cs where "fmt_d n = c # cs" "isDigit c" by blast
  then show ?thesis by (simp add: SkipSpace_digit)
qed

lemma scanNumber_fmt_d:
  "rest = [] \<or> \<not> isDigit (hd rest) \<Longrightarrow> scanNumber (fmt_d n @ rest) = Inr (fmt_d n, rest)"
  using fmt_d_nonempty [of n] fmt_d_hd_digit [of n rest]
  by (simp add: scanNumber_def takeWhile_fmt_d dropWhile_fmt_d)

lemma ParseUint_fmt_d: "n < 2 ^ 64 \<Longrightarrow> ParseUint (fmt_d n) = Inr n"
  by (simp add: ParseUint_def foldl_fmt_d Let_def)

lemma scanUint_fmt_d:
  assumes "rest = [] \<or> \<not> isDigit (hd rest)" "n < 2 ^ bitSize" "bitSize \<le> 64"
  shows "scanUint bitSize (fmt_d n @ rest) = Inr (n, rest)"
proof -
  have "(2::nat) ^ bitSize \<le> 2 ^ 64"
    using assms(3) by (rule power_increasing) simp
  with assms(2) have "n < 2 ^ 64" by linarith
  then show ?thesis
    using assms(1,2) fmt_d_nonempty [of n]
    by (simp add: scanUint_def SkipSpace_fmt_d scanNumber_fmt_d ParseUint_fmt_d)
qed

lemma verb_d_uint_fmt_d:
  assumes "rest = [] \<or> \<not> isDigit (hd rest)" "n < 2 ^ bitSize" "bitSize \<le> 64"
  shows "verb_d_uint bitSize (fmt_d n @ rest) = Inr (n, rest)"
  by (simp add: verb_d_uint_def SkipSpace_fmt_d scanUint_fmt_d [OF assms])

section \<open>The encoded string and its fields\<close>

lemma fmt_d_int_Argon2Version: "fmt_d_int Argon2Version = ''19''"
  by (simp add: fmt_d_int_def Argon2Version_def fmt_d.simps [of 19] fmt_d.simps [of "Suc 0"]
      decimalDigits_def)

lemma not_isDigit_dollar: "\<not> isDigit (CHR ''$'')"
  by (simp add: isDigit_def decimalDigits_def)

lemma not_isDigit_comma: "\<not> isDigit (CHR '','')"
  by (simp add: isDigit_def decimalDigits_def)

lemma dollar_notin_fmt_d: "CHR ''$'' \<notin> set (fmt_d n)"
  using fmt_d_digits not_isDigit_dollar by blast

lemma dollar_notin_paramsField: "CHR ''$'' \<notin> set (paramsField a)"
  by (simp add: paramsField_def dollar_notin_fmt_d)

lemma encodeHashComponents_eq:
  "encodeHashComponents salt hash a =
     [] @ CHR ''$'' # ''argon2id'' @ CHR ''$'' # ''v=19'' @ CHR ''$'' # paramsField a @
     CHR ''$'' # EncodeToString salt @ CHR ''$'' # EncodeToString hash"
  by (simp add: encodeHashComponents_def fmt_d_int_Argon2Version paramsField_def)

lemma strings_Split_encoded:
  "strings_Split (encodeHashComponents salt hash a) (CHR ''$'') =
     [[], ''argon2id'', ''v=19'', paramsField a, EncodeToString salt, EncodeToString hash]"
proof -
  have 5: "splitFrom [] (EncodeToString hash) (CHR ''$'') = [EncodeToString hash]"
    using splitFrom_no_sep [OF dollar_notin_EncodeToString, of "[]" hash] by simp
  have 4: "splitFrom [] (EncodeToString salt @ CHR ''$'' # EncodeToString hash) (CHR ''$'')
      = [EncodeToString salt, EncodeToString hash]"
    using splitFrom_sep [OF dollar_notin_EncodeToString, of "[]" salt] 5 by simp
  have 3: "splitFrom [] (paramsField a @ CHR ''$'' # EncodeToString salt @ CHR ''$'' #
      EncodeToString hash) (CHR ''$'') = [paramsField a, EncodeToString salt, EncodeToString hash]"
    using splitFrom_sep [OF dollar_notin_paramsField, of "[]" a] 4 by simp
  have 2: "splitFrom [] (''v=19'' @ CHR ''$'' # paramsField a @ CHR ''$'' # EncodeToString salt @
      CHR ''$'' # EncodeToString hash) (CHR ''$'')
      = [''v=19'', paramsField a, EncodeToString salt, EncodeToString hash]"
    using splitFrom_sep [of "CHR ''$''" "''v=19''" "[]"] 3 by simp
  have 1: "splitFrom [] (''argon2id'' @ CHR ''$'' # ''v=19'' @ CHR ''$'' # paramsField a @
      CHR ''$'' # EncodeToString salt @ CHR ''$'' # EncodeToString hash) (CHR ''$'')
      = [''argon2id'', ''v=19'', paramsField a, EncodeToString salt, EncodeToString hash]"
    using splitFrom_sep [of "CHR ''$''" "''argon2id''" "[]"] 2 by simp
  show ?thesis
    unfolding strings_Split_def encodeHashComponents_eq
    using splitFrom_sep [of "CHR ''$''" "[]" "[]"] 1 by simp
qed

lemma Sscanf_version_19: "Sscanf_version ''v=19'' = Inr 19"
proof -
  have d: "isDigit CHR ''1''" "isDigit CHR ''9''"
    by (simp_all add: isDigit_def decimalDigits_def)
  have s: "SkipSpace ''19'' = Inr ''19''"
    using SkipSpace_digit [OF d(1)] by simp
  have n: "scanNumber ''19'' = Inr (''19'', [])"
    using d by (simp add: scanNumber_def)
  have p: "ParseInt ''19'' = Inr 19"
    by (simp add: ParseInt_def digitVal_def)
  show ?thesis
    by (simp add: Sscanf_version_def verb_d_int_def scanInt_def s n p)
qed

lemma unat_bounds:
  "unat (m :: uint32) < 4294967296" "unat (p :: uint8) < 256"
  using unsigned_less [of m, where 'a = nat] unsigned_less [of p, where 'a = nat] by simp_all

lemma Sscanf_params_paramsField:
  "Sscanf_params (paramsField a) = Inr (Memory a, Time a, Threads a)"
proof -
  let ?m = "unat (Memory a)" and ?t = "unat (Time a)" and ?p = "unat (Threads a)"
  have 1: "verb_d_uint 32 (fmt_d ?m @ '',t='' @ fmt_d ?t @ '',p='' @ fmt_d ?p)
      = Inr (?m, '',t='' @ fmt_d ?t @ '',p='' @ fmt_d ?p)"
    by (rule verb_d_uint_fmt_d) (simp_all add: not_isDigit_comma unat_bounds)
  have 2: "verb_d_uint 32 (fmt_d ?t @ '',p='' @ fmt_d ?p) = Inr (?t, '',p='' @ fmt_d ?p)"
    by (rule verb_d_uint_fmt_d) (simp_all add: not_isDigit_comma unat_bounds)
  have 3: "verb_d_uint 8 (fmt_d ?p @ []) = Inr (?p, [])"
    by (rule verb_d_uint_fmt_d) (simp_all add: unat_bounds)
  show ?thesis
    using 1 2 3 by (simp add: Sscanf_params_def paramsField_def)
qed

text \<open>Decoding what \<^verbatim>\<open>encodeHashComponents\<close> wrote gives back the parameters and both byte slices.\<close>

lemma decodeHash_encodeHashComponents:
  "decodeHash (encodeHashComponents salt hash a) =
     Inr (\<lparr>Time = Time a, Memory = Memory a, Threads = Threads a,
           KeyLen = of_nat (length hash), SaltLen = of_nat (length salt)\<rparr>, salt, hash)"
  by (simp add: decodeHash_def strings_Split_encoded Sscanf_version_19
      Sscanf_params_paramsField DecodeString_EncodeToString)

section \<open>Facts about \<^verbatim>\<open>ConstantTimeCompare\<close>\<close>

lemma unat_of_char: "unat (of_char c :: uint8) = of_char c"
proof -
  have "(of_char c :: uint8) = of_nat (of_char c)"
    by (simp only: of_nat_of_char)
  then have "unat (of_char c :: uint8) = (of_char c :: nat) mod 256"
    by (simp only: unat_of_nat) simp
  then show ?thesis by simp
qed

lemma of_char_word_eq_iff: "(of_char c :: uint8) = of_char d \<longleftrightarrow> c = d"
proof
  assume "(of_char c :: uint8) = of_char d"
  then have "unat (of_char c :: uint8) = unat (of_char d :: uint8)" by simp
  then have "(of_char c :: nat) = of_char d" by (simp only: unat_of_char)
  then show "c = d" by simp
qed simp

lemma xor_word_eq_0_iff: "(a :: uint8) XOR b = 0 \<longleftrightarrow> a = b"
  by (metis xor.right_neutral xor_self_eq xor.assoc)

lemma ConstantTimeByteEq_0: "ConstantTimeByteEq v 0 = (if v = 0 then 1 else 0)"
proof (cases "v = 0")
  case True
  then show ?thesis
    by (simp add: ConstantTimeByteEq_def drop_bit_eq_div)
next
  case False
  then have pos: "0 < unat v" by (simp add: unat_gt_0)
  have "unat v < 256" using unsigned_less [of v, where 'a = nat] by simp
  then have u: "unat (ucast v :: uint32) = unat v"
    by (simp add: unsigned_ucast_eq take_bit_nat_eq_self)
  with pos have "ucast v \<noteq> (0 :: uint32)"
    by (metis unat_gt_0)
  then have "unat ((ucast v :: uint32) - 1) = unat v - 1"
    using u by (simp add: unat_minus_one)
  with \<open>unat v < 256\<close> have "unat ((ucast v :: uint32) - 1) < 2 ^ 31" by simp
  then have "unat (drop_bit 31 ((ucast v :: uint32) - 1)) = 0"
    by (simp only: unat_drop_bit_eq) (simp add: drop_bit_eq_div)
  then have "drop_bit 31 ((ucast v :: uint32) - 1) = 0"
    by (simp only: unat_eq_0)
  with False show ?thesis
    by (simp add: ConstantTimeByteEq_def)
qed


lemma foldl_or_xor_eq_0:
  "foldl (\<lambda>v (xi, yi). v OR (of_char xi XOR of_char yi)) (v0 :: uint8) zs = 0
   \<longleftrightarrow> v0 = 0 \<and> (\<forall>(xi, yi) \<in> set zs. xi = yi)"
proof (induction zs arbitrary: v0)
  case Nil
  show ?case by simp
next
  case (Cons z zs)
  obtain xi yi where z: "z = (xi, yi)" by (cases z)
  have "v0 OR (of_char xi XOR of_char yi) = 0 \<longleftrightarrow> v0 = 0 \<and> xi = yi"
    by (simp add: or_eq_0_iff xor_word_eq_0_iff of_char_word_eq_iff)
  with Cons.IH [of "v0 OR (of_char xi XOR of_char yi)"] show ?case
    by (auto simp: z)
qed

lemma zip_all_eq: "length x = length y \<Longrightarrow> (\<forall>(xi, yi) \<in> set (zip x y). xi = yi) \<longleftrightarrow> x = y"
  by (induction x y rule: list_induct2) auto

text \<open>The comparison is 1 exactly for equal slices.\<close>

lemma ConstantTimeCompare_eq_1: "ConstantTimeCompare x y = 1 \<longleftrightarrow> x = y"
proof (cases "length x = length y")
  case True
  then show ?thesis
    using foldl_or_xor_eq_0 [of 0 "zip x y"] zip_all_eq [OF True]
    by (simp add: ConstantTimeCompare_def ConstantTimeByteEq_0)
next
  case False
  then show ?thesis
    by (auto simp: ConstantTimeCompare_def)
qed

section \<open>What \<^verbatim>\<open>GenerateHash\<close> and \<^verbatim>\<open>VerifyHash\<close> do\<close>

text \<open>
  A successful \<^verbatim>\<open>GenerateHash\<close> has derived one digest, from the salt given or drawn,
  and returns the encoding of that salt and digest.
\<close>

lemma GenerateHash_Returns:
  assumes "GenerateHash kdf a password salt w = (Returns (enc, None), w')"
  shows "\<exists>salt' hash.
           kdf password salt' (Time a) (Memory a) (Threads a) (KeyLen a) = Some hash \<and>
           enc = encodeHashComponents salt' hash a \<and>
           (salt \<noteq> [] \<longrightarrow> salt' = salt) \<and>
           (salt = [] \<longrightarrow> salt' = take (unat (SaltLen a)) (entropy w)) \<and>
           derivations w' = Suc (derivations w)"
  using assms
  by (auto simp: GenerateHash_def validateSaltLength_def generateBytes_def rand_Read_def
      argon2_IDKey_def split: if_splits option.splits prod.splits)

lemma VerifyHash_decoded:
  assumes "decodeHash enc = Inr (a, salt, hash)"
  shows "VerifyHash kdf password enc w =
           ((case kdf password salt (Time a) (Memory a) (Threads a) (KeyLen a) of
               None \<Rightarrow> Panics
             | Some otherHash \<Rightarrow> Returns (otherHash = hash, None)),
            w\<lparr>derivations := Suc (derivations w)\<rparr>)"
  using assms ConstantTimeCompare_eq_1 [of hash]
  by (auto simp: VerifyHash_def argon2_IDKey_def split: option.splits)

lemma VerifyHash_undecoded:
  "decodeHash enc = Inl err \<Longrightarrow> VerifyHash kdf password enc w = (Returns (False, Some err), w)"
  by (simp add: VerifyHash_def)

section \<open>Concrete runs of the model\<close>

lemma GenerateHash_sample:
  "GenerateHash sample_IDKey sample_params ''pw'' [] sample_world =
     (Returns (''$argon2id$v=19$m=8,t=1,p=1$MDEyMw==$cHcwMTI='', None),
      \<lparr>entropy = ''456789abcdefghijklmnopqrstuvwxyz'', derivations = 1, log_lines = []\<rparr>)"
  by code_simp

lemma keyLen_respected_sample: "keyLen_respected sample_IDKey"
  by (auto simp: keyLen_respected_def sample_IDKey_def split: if_splits)

section \<open>The claims\<close>

text \<open>
  C4. Decoding a string that \<^verbatim>\<open>GenerateHash\<close> returned into parameters, salt and digest,
  and encoding these again with \<^verbatim>\<open>encodeHashComponents\<close>, gives the same string, byte
  for byte.
\<close>

theorem decode_encode_identity:
  assumes "GenerateHash kdf c password salt w = (Returns (enc, None), w')"
  shows "\<exists>a salt' hash. decodeHash enc = Inr (a, salt', hash) \<and>
           encodeHashComponents salt' hash a = enc"
proof -
  from GenerateHash_Returns [OF assms] obtain salt' hash
    where enc: "enc = encodeHashComponents salt' hash c" by blast
  let ?a = "\<lparr>Time = Time c, Memory = Memory c, Threads = Threads c,
             KeyLen = of_nat (length hash), SaltLen = of_nat (length salt')\<rparr>"
  have "decodeHash enc = Inr (?a, salt', hash)"
    unfolding enc by (rule decodeHash_encodeHashComponents)
  moreover have "encodeHashComponents salt' hash ?a = enc"
    by (simp add: enc encodeHashComponents_def)
  ultimately show ?thesis by blast
qed

theorem decode_encode_identity_witness:
  "GenerateHash sample_IDKey sample_params ''pw'' [] sample_world =
     (Returns (''$argon2id$v=19$m=8,t=1,p=1$MDEyMw==$cHcwMTI='', None),
      \<lparr>entropy = ''456789abcdefghijklmnopqrstuvwxyz'', derivations = 1, log_lines = []\<rparr>) \<and>
   (\<exists>a salt' hash.
     decodeHash ''$argon2id$v=19$m=8,t=1,p=1$MDEyMw==$cHcwMTI='' = Inr (a, salt', hash) \<and>
     encodeHashComponents salt' hash a = ''$argon2id$v=19$m=8,t=1,p=1$MDEyMw==$cHcwMTI='')"
  using decode_encode_identity [OF GenerateHash_sample] GenerateHash_sample by blast

text \<open>
  C1. Round trip: when \<^verbatim>\<open>GenerateHash\<close> with password \<open>p\<close> and an empty salt returns an
  encoded hash, \<^verbatim>\<open>VerifyHash\<close> with \<open>p\<close> and that string returns \<^verbatim>\<open>(true, nil)\<close>, for
  every parameter set. The derivation function is any one that yields keys of the length
  asked for.
\<close>

theorem verify_generated_hash:
  assumes "keyLen_respected kdf"
    and "GenerateHash kdf c p [] w = (Returns (enc, None), w')"
  shows "fst (VerifyHash kdf p enc w'') = Returns (True, None)"
proof -
  from GenerateHash_Returns [OF assms(2)] obtain salt hash
    where kdf: "kdf p salt (Time c) (Memory c) (Threads c) (KeyLen c) = Some hash"
      and enc: "enc = encodeHashComponents salt hash c" by blast
  from assms(1) kdf have "length hash = unat (KeyLen c)"
    by (auto simp: keyLen_respected_def)
  then have len: "(of_nat (length hash) :: uint32) = KeyLen c"
    by simp
  have "decodeHash enc =
      Inr (\<lparr>Time = Time c, Memory = Memory c, Threads = Threads c,
             KeyLen = of_nat (length hash), SaltLen = of_nat (length salt)\<rparr>, salt, hash)"
    unfolding enc by (rule decodeHash_encodeHashComponents)
  from VerifyHash_decoded [OF this, of kdf p w''] kdf len show ?thesis
    by simp
qed

theorem verify_generated_hash_witness:
  "keyLen_respected sample_IDKey \<and>
   GenerateHash sample_IDKey sample_params ''pw'' [] sample_world =
     (Returns (''$argon2id$v=19$m=8,t=1,p=1$MDEyMw==$cHcwMTI='', None),
      \<lparr>entropy = ''456789abcdefghijklmnopqrstuvwxyz'', derivations = 1, log_lines = []\<rparr>) \<and>
   fst (VerifyHash sample_IDKey ''pw'' ''$argon2id$v=19$m=8,t=1,p=1$MDEyMw==$cHcwMTI='' sample_world)
     = Returns (True, None)"
  using verify_generated_hash [OF keyLen_respected_sample GenerateHash_sample, of sample_world]
    keyLen_respected_sample GenerateHash_sample by blast

text \<open>
  C7. A string returned by \<^verbatim>\<open>GenerateHash\<close> is
  \<^verbatim>\<open>$argon2id$v=<version>$m=<memory>,t=<time>,p=<threads>$<base64(salt)>$<base64(digest)>\<close>:
  split at \<^verbatim>\<open>$\<close> it has exactly six fields, the first one empty, the second one the
  literal \<^verbatim>\<open>argon2id\<close>; the salt and digest fields consist of bytes of the standard base64
  alphabet and the padding byte, their lengths are multiples of 4, and they decode to the
  salt and the digest.
\<close>

theorem generated_hash_format:
  assumes "GenerateHash kdf c password salt w = (Returns (enc, None), w')"
  shows "\<exists>salt' hash.
           enc = ''$argon2id$v='' @ fmt_d_int Argon2Version @
                 ''$m='' @ fmt_d (unat (Memory c)) @ '',t='' @ fmt_d (unat (Time c)) @
                 '',p='' @ fmt_d (unat (Threads c)) @
                 ''$'' @ EncodeToString salt' @ ''$'' @ EncodeToString hash \<and>
           strings_Split enc (CHR ''$'') =
             [[], ''argon2id'', ''v='' @ fmt_d_int Argon2Version,
              ''m='' @ fmt_d (unat (Memory c)) @ '',t='' @ fmt_d (unat (Time c)) @
              '',p='' @ fmt_d (unat (Threads c)),
              EncodeToString salt', EncodeToString hash] \<and>
           length (strings_Split enc (CHR ''$'')) = 6 \<and>
           set (EncodeToString salt') \<subseteq> set encodeStd \<union> {StdPadding} \<and>
           set (EncodeToString hash) \<subseteq> set encodeStd \<union> {StdPadding} \<and>
           length (EncodeToString salt') mod 4 = 0 \<and>
           length (EncodeToString hash) mod 4 = 0 \<and>
           DecodeString (EncodeToString salt') = (salt', None) \<and>
           DecodeString (EncodeToString hash) = (hash, None) \<and>
           kdf password salt' (Time c) (Memory c) (Threads c) (KeyLen c) = Some hash"
proof -
  from GenerateHash_Returns [OF assms] obtain salt' hash
    where kdf: "kdf password salt' (Time c) (Memory c) (Threads c) (KeyLen c) = Some hash"
      and enc: "enc = encodeHashComponents salt' hash c" by blast
  have 1: "enc = ''$argon2id$v='' @ fmt_d_int Argon2Version @
                 ''$m='' @ fmt_d (unat (Memory c)) @ '',t='' @ fmt_d (unat (Time c)) @
                 '',p='' @ fmt_d (unat (Threads c)) @
                 ''$'' @ EncodeToString salt' @ ''$'' @ EncodeToString hash"
    by (simp add: enc encodeHashComponents_def)
  have 2: "strings_Split enc (CHR ''$'') =
             [[], ''argon2id'', ''v='' @ fmt_d_int Argon2Version,
              ''m='' @ fmt_d (unat (Memory c)) @ '',t='' @ fmt_d (unat (Time c)) @
              '',p='' @ fmt_d (unat (Threads c)),
              EncodeToString salt', EncodeToString hash]"
    unfolding enc strings_Split_encoded
    by (simp add: fmt_d_int_Argon2Version paramsField_def)
  have 3: "length (strings_Split enc (CHR ''$'')) = 6"
    unfolding 2 by simp
  show ?thesis
    by (intro exI [of _ salt'] exI [of _ hash] conjI 1 2 3 kdf EncodeToString_chars
        length_EncodeToString DecodeString_EncodeToString)
qed

theorem generated_hash_format_witness:
  "GenerateHash sample_IDKey sample_params ''pw'' [] sample_world =
     (Returns (''$argon2id$v=19$m=8,t=1,p=1$MDEyMw==$cHcwMTI='', None),
      \<lparr>entropy = ''456789abcdefghijklmnopqrstuvwxyz'', derivations = 1, log_lines = []\<rparr>) \<and>
   (\<exists>salt' hash.
      strings_Split ''$argon2id$v=19$m=8,t=1,p=1$MDEyMw==$cHcwMTI='' (CHR ''$'') =
        [[], ''argon2id'', ''v='' @ fmt_d_int Argon2Version,
         ''m='' @ fmt_d (unat (Memory sample_params)) @
         '',t='' @ fmt_d (unat (Time sample_params)) @
         '',p='' @ fmt_d (unat (Threads sample_params)),
         EncodeToString salt', EncodeToString hash] \<and>
      length (strings_Split ''$argon2id$v=19$m=8,t=1,p=1$MDEyMw==$cHcwMTI='' (CHR ''$'')) = 6)"
proof -
  from generated_hash_format [OF GenerateHash_sample] obtain salt' hash where
    "strings_Split ''$argon2id$v=19$m=8,t=1,p=1$MDEyMw==$cHcwMTI='' (CHR ''$'') =
        [[], ''argon2id'', ''v='' @ fmt_d_int Argon2Version,
         ''m='' @ fmt_d (unat (Memory sample_params)) @
         '',t='' @ fmt_d (unat (Time sample_params)) @
         '',p='' @ fmt_d (unat (Threads sample_params)),
         EncodeToString salt', EncodeToString hash]"
    "length (strings_Split ''$argon2id$v=19$m=8,t=1,p=1$MDEyMw==$cHcwMTI='' (CHR ''$'')) = 6"
    by blast
  then show ?thesis
    by (intro conjI GenerateHash_sample exI [of _ salt'] exI [of _ hash])
qed

section \<open>Errors of decoding\<close>

lemma decodeQuantum_error:
  "decodeQuantum j dbuf src si n = (r, si', out, Some e) \<Longrightarrow> \<exists>k. e = CorruptInputError k"
proof (induction j dbuf src si n arbitrary: r si' out e rule: decodeQuantum.induct)
  case (1 j dbuf si n)
  then show ?case by (auto split: if_splits)
next
  case (2 j dbuf c src si n)
  show ?case
  proof (cases "j = 4")
    case True
    with "2.prems" show ?thesis by simp
  next
    case j4: False
    show ?thesis
    proof (cases "decodeMap c")
      case (Some v)
      with j4 "2.prems"
      have "decodeQuantum (Suc j) (dbuf @ [v]) src (Suc si) n = (r, si', out, Some e)"
        by simp
      from "2.IH"(2) [OF j4 Some this] show ?thesis .
    next
      case None
      show ?thesis
      proof (cases "isNewline c")
        case True
        with j4 None "2.prems"
        have "decodeQuantum j dbuf src (Suc si) n = (r, si', out, Some e)"
          by simp
        from "2.IH"(1) [OF j4 None True this] show ?thesis .
      next
        case False
        with j4 None "2.prems" show ?thesis
          by (auto split: if_splits prod.splits list.splits)
      qed
    qed
  qed
qed

lemma Decode_error: "Decode src si n = (out, Some e) \<Longrightarrow> \<exists>k. e = CorruptInputError k"
proof (induction src si n arbitrary: out rule: Decode.induct)
  case (1 si n)
  then show ?case by simp
next
  case (2 c src si n)
  obtain src' si' out1 err1 where q: "decodeQuantum 0 [] (c # src) si n = (src', si', out1, err1)"
    by (metis prod_cases4)
  show ?case
  proof (cases err1)
    case None
    obtain out2 err2 where d: "Decode src' si' n = (out2, err2)"
      by (cases "Decode src' si' n")
    with "2.prems" q None have "err2 = Some e" by simp
    with d "2.IH" [OF q [symmetric] refl refl None, of out2] show ?thesis
      by simp
  next
    case (Some e1)
    with "2.prems" q have "e1 = e" by simp
    with q Some decodeQuantum_error show ?thesis by blast
  qed
qed

lemma DecodeString_error: "DecodeString s = (out, Some e) \<Longrightarrow> \<exists>k. e = CorruptInputError k"
  unfolding DecodeString_def by (rule Decode_error)

section \<open>When \<^verbatim>\<open>decodeHash\<close> fails\<close>

lemma decodeHash_Inl_iff:
  "(\<exists>e. decodeHash enc = Inl e) \<longleftrightarrow>
     (length (strings_Split enc (CHR ''$'')) \<noteq> 6 \<or>
      (\<exists>e. Sscanf_version (strings_Split enc (CHR ''$'') ! 2) = Inl e) \<or>
      (\<exists>e. Sscanf_params (strings_Split enc (CHR ''$'') ! 3) = Inl e) \<or>
      snd (DecodeString (strings_Split enc (CHR ''$'') ! 4)) \<noteq> None \<or>
      snd (DecodeString (strings_Split enc (CHR ''$'') ! 5)) \<noteq> None)"
  by (auto simp: decodeHash_def Let_def split: sum.splits prod.splits option.splits)

lemma decodeHash_version_error_iff:
  "decodeHash enc = Inl ErrIncompatibleArgon2Version \<longleftrightarrow>
     length (strings_Split enc (CHR ''$'')) = 6 \<and>
     (\<exists>e. Sscanf_version (strings_Split enc (CHR ''$'') ! 2) = Inl e)"
  by (auto simp: decodeHash_def Let_def split: sum.splits prod.splits option.splits
      dest: DecodeString_error)

lemma decodeHash_version_irrelevant:
  assumes "strings_Split enc (CHR ''$'') = [f0, f1, f2, f3, f4, f5]"
    and "strings_Split enc' (CHR ''$'') = [f0', f1', f2', f3, f4, f5]"
    and "Sscanf_version f2 = Inr v" "Sscanf_version f2' = Inr v'"
  shows "decodeHash enc = decodeHash enc'"
  using assms
  by (simp add: decodeHash_def Let_def split: sum.splits prod.splits option.splits)

lemma decodeHash_sample:
  "decodeHash ''$argon2id$v=19$m=8,t=1,p=1$MDEyMw==$cHcwMTI='' =
     Inr (\<lparr>Time = 1, Memory = 8, Threads = 1, KeyLen = 5, SaltLen = 4\<rparr>, ''0123'', ''pw012'')"
  by code_simp

lemma decodeHash_malformed: "decodeHash ''not-a-valid-hash'' = Inl ErrInvalidEncodedHash"
  by code_simp

lemma sample_IDKey_pw:
  "sample_IDKey ''pw'' ''0123'' 1 8 1 5 = Some ''pw012''"
  "sample_IDKey ''wrong'' ''0123'' 1 8 1 5 = Some ''wrong''"
  by code_simp+

lemma decodeHash_zero:
  "decodeHash ''$argon2id$v=19$m=0,t=0,p=0$$'' =
     Inr (\<lparr>Time = 0, Memory = 0, Threads = 0, KeyLen = 0, SaltLen = 0\<rparr>, [], [])"
  by code_simp

lemma sample_IDKey_zero: "sample_IDKey ''pw'' [] 0 0 0 0 = None"
  by code_simp

text \<open>
  C2, as amended. \<^verbatim>\<open>VerifyHash\<close> returns a non-nil error exactly when \<^verbatim>\<open>decodeHash\<close> fails,
  that is when the string does not split into six fields, the version or the parameter
  field does not scan, or the salt or the digest field is not valid base64; the error is
  the one of \<^verbatim>\<open>decodeHash\<close> and the boolean is false. Once decoding succeeded, the outcome
  is that of the derivation: when it returns, the result is \<^verbatim>\<open>(true, nil)\<close> when the derived
  bytes equal the stored digest and \<^verbatim>\<open>(false, nil)\<close> otherwise; when it panics,
  \<^verbatim>\<open>VerifyHash\<close> panics and returns nothing. \<^verbatim>\<open>(true, err)\<close> with a non-nil error is never
  returned.
\<close>

theorem VerifyHash_error_iff_parse_failure:
  "((\<exists>b e. fst (VerifyHash kdf password enc w) = Returns (b, Some e)) \<longleftrightarrow>
      (\<exists>e. decodeHash enc = Inl e)) \<and>
   ((\<exists>e. decodeHash enc = Inl e) \<longleftrightarrow>
      (length (strings_Split enc (CHR ''$'')) \<noteq> 6 \<or>
       (\<exists>e. Sscanf_version (strings_Split enc (CHR ''$'') ! 2) = Inl e) \<or>
       (\<exists>e. Sscanf_params (strings_Split enc (CHR ''$'') ! 3) = Inl e) \<or>
       snd (DecodeString (strings_Split enc (CHR ''$'') ! 4)) \<noteq> None \<or>
       snd (DecodeString (strings_Split enc (CHR ''$'') ! 5)) \<noteq> None)) \<and>
   (\<forall>e. decodeHash enc = Inl e \<longrightarrow>
      VerifyHash kdf password enc w = (Returns (False, Some e), w)) \<and>
   (\<forall>a salt hash otherHash.
      decodeHash enc = Inr (a, salt, hash) \<longrightarrow>
      kdf password salt (Time a) (Memory a) (Threads a) (KeyLen a) = Some otherHash \<longrightarrow>
      fst (VerifyHash kdf password enc w) = Returns (otherHash = hash, None)) \<and>
   (\<forall>a salt hash.
      decodeHash enc = Inr (a, salt, hash) \<longrightarrow>
      kdf password salt (Time a) (Memory a) (Threads a) (KeyLen a) = None \<longrightarrow>
      fst (VerifyHash kdf password enc w) = Panics) \<and>
   (\<forall>e. fst (VerifyHash kdf password enc w) \<noteq> Returns (True, Some e))"
proof (intro conjI allI impI)
  show "(\<exists>b e. fst (VerifyHash kdf password enc w) = Returns (b, Some e)) \<longleftrightarrow>
      (\<exists>e. decodeHash enc = Inl e)"
  proof (cases "decodeHash enc")
    case (Inl e)
    then show ?thesis by (auto simp: VerifyHash_undecoded)
  next
    case (Inr r)
    obtain a salt hash where "r = (a, salt, hash)" by (cases r)
    with Inr VerifyHash_decoded [of enc a salt hash kdf password w] show ?thesis
      by (auto split: option.splits)
  qed
next
  show "(\<exists>e. decodeHash enc = Inl e) \<longleftrightarrow>
      (length (strings_Split enc (CHR ''$'')) \<noteq> 6 \<or>
       (\<exists>e. Sscanf_version (strings_Split enc (CHR ''$'') ! 2) = Inl e) \<or>
       (\<exists>e. Sscanf_params (strings_Split enc (CHR ''$'') ! 3) = Inl e) \<or>
       snd (DecodeString (strings_Split enc (CHR ''$'') ! 4)) \<noteq> None \<or>
       snd (DecodeString (strings_Split enc (CHR ''$'') ! 5)) \<noteq> None)"
    by (rule decodeHash_Inl_iff)
next
  fix e assume "decodeHash enc = Inl e"
  then show "VerifyHash kdf password enc w = (Returns (False, Some e), w)"
    by (rule VerifyHash_undecoded)
next
  fix a salt hash otherHash
  assume "decodeHash enc = Inr (a, salt, hash)"
    and "kdf password salt (Time a) (Memory a) (Threads a) (KeyLen a) = Some otherHash"
  then show "fst (VerifyHash kdf password enc w) = Returns (otherHash = hash, None)"
    by (simp add: VerifyHash_decoded)
next
  fix a salt hash
  assume "decodeHash enc = Inr (a, salt, hash)"
    and "kdf password salt (Time a) (Memory a) (Threads a) (KeyLen a) = None"
  then show "fst (VerifyHash kdf password enc w) = Panics"
    by (simp add: VerifyHash_decoded)
next
  fix e
  show "fst (VerifyHash kdf password enc w) \<noteq> Returns (True, Some e)"
  proof (cases "decodeHash enc")
    case (Inl e')
    then show ?thesis by (simp add: VerifyHash_undecoded)
  next
    case (Inr r)
    obtain a salt hash where "r = (a, salt, hash)" by (cases r)
    with Inr VerifyHash_decoded [of enc a salt hash kdf password w] show ?thesis
      by (auto split: option.splits)
  qed
qed

theorem VerifyHash_error_iff_parse_failure_witness:
  "decodeHash ''not-a-valid-hash'' = Inl ErrInvalidEncodedHash \<and>
   VerifyHash sample_IDKey ''pw'' ''not-a-valid-hash'' sample_world =
     (Returns (False, Some ErrInvalidEncodedHash), sample_world) \<and>
   fst (VerifyHash sample_IDKey ''pw'' ''$argon2id$v=19$m=8,t=1,p=1$MDEyMw==$cHcwMTI=''
          sample_world) = Returns (True, None) \<and>
   fst (VerifyHash sample_IDKey ''wrong'' ''$argon2id$v=19$m=8,t=1,p=1$MDEyMw==$cHcwMTI=''
          sample_world) = Returns (False, None) \<and>
   fst (VerifyHash sample_IDKey ''pw'' ''$argon2id$v=19$m=0,t=0,p=0$$'' sample_world) = Panics"
proof -
  note t = VerifyHash_error_iff_parse_failure
  note t3 = t [THEN conjunct2, THEN conjunct2, THEN conjunct1, rule_format]
  note t4 = t [THEN conjunct2, THEN conjunct2, THEN conjunct2, THEN conjunct1, rule_format]
  note t5 = t [THEN conjunct2, THEN conjunct2, THEN conjunct2, THEN conjunct2, THEN conjunct1,
               rule_format]
  have 1: "VerifyHash sample_IDKey ''pw'' ''not-a-valid-hash'' sample_world =
     (Returns (False, Some ErrInvalidEncodedHash), sample_world)"
    by (rule t3 [OF decodeHash_malformed])
  have 2: "fst (VerifyHash sample_IDKey ''pw'' ''$argon2id$v=19$m=8,t=1,p=1$MDEyMw==$cHcwMTI=''
          sample_world) = Returns (''pw012'' = ''pw012'', None)"
    by (rule t4 [OF decodeHash_sample]) (simp add: sample_IDKey_pw)
  have 3: "fst (VerifyHash sample_IDKey ''wrong''
          ''$argon2id$v=19$m=8,t=1,p=1$MDEyMw==$cHcwMTI='' sample_world)
          = Returns (''wrong'' = ''pw012'', None)"
    by (rule t4 [OF decodeHash_sample]) (simp add: sample_IDKey_pw)
  have 4: "fst (VerifyHash sample_IDKey ''pw'' ''$argon2id$v=19$m=0,t=0,p=0$$'' sample_world)
          = Panics"
    by (rule t5 [OF decodeHash_zero]) (simp add: sample_IDKey_zero)
  from 1 2 3 4 decodeHash_malformed show ?thesis by simp
qed

text \<open>
  C2, as stated, fails: it has \<^verbatim>\<open>VerifyHash\<close> return \<^verbatim>\<open>(true, nil)\<close> or \<^verbatim>\<open>(false, nil)\<close>
  whenever parsing succeeded. The string \<^verbatim>\<open>$argon2id$v=19$m=0,t=0,p=0$$\<close> parses, to the
  time cost 0, and \<^verbatim>\<open>VerifyHash\<close> with the password \<^verbatim>\<open>pw\<close> then returns neither pair, for any
  derivation function that panics on the time cost 0 with these arguments, as
  \<^verbatim>\<open>argon2.IDKey\<close> does; with the stand-in derivation the outcome is the panic.
\<close>

theorem parsed_record_without_result_counterexample:
  "decodeHash ''$argon2id$v=19$m=0,t=0,p=0$$'' =
     Inr (\<lparr>Time = 0, Memory = 0, Threads = 0, KeyLen = 0, SaltLen = 0\<rparr>, [], []) \<and>
   fst (VerifyHash sample_IDKey ''pw'' ''$argon2id$v=19$m=0,t=0,p=0$$'' sample_world) = Panics \<and>
   \<not> (\<exists>kdf. kdf ''pw'' [] 0 0 0 0 = None \<and>
          (fst (VerifyHash kdf ''pw'' ''$argon2id$v=19$m=0,t=0,p=0$$'' sample_world)
             = Returns (True, None) \<or>
           fst (VerifyHash kdf ''pw'' ''$argon2id$v=19$m=0,t=0,p=0$$'' sample_world)
             = Returns (False, None)))"
  by (auto simp: VerifyHash_decoded [OF decodeHash_zero] sample_IDKey_zero decodeHash_zero)

lemma VerifyHash_same_decode:
  "decodeHash enc = decodeHash enc' \<Longrightarrow> VerifyHash kdf password enc w = VerifyHash kdf password enc' w"
  by (simp add: VerifyHash_def)

lemma Sscanf_version_samples:
  "Sscanf_version ''v=19'' = Inr 19" "Sscanf_version ''v=-7'' = Inr (- 7)"
  "Sscanf_version ''version'' = Inl InputDoesNotMatchFormat"
  by code_simp+

lemma strings_Split_samples:
  "strings_Split ''$argon2id$v=19$m=8,t=1,p=1$MDEyMw==$cHcwMTI='' (CHR ''$'') =
     [[], ''argon2id'', ''v=19'', ''m=8,t=1,p=1'', ''MDEyMw=='', ''cHcwMTI='']"
  "strings_Split ''$argon2id$v=-7$m=8,t=1,p=1$MDEyMw==$cHcwMTI='' (CHR ''$'') =
     [[], ''argon2id'', ''v=-7'', ''m=8,t=1,p=1'', ''MDEyMw=='', ''cHcwMTI='']"
  "strings_Split ''$argon2id$version$m=8,t=1,p=1$MDEyMw==$cHcwMTI='' (CHR ''$'') =
     [[], ''argon2id'', ''version'', ''m=8,t=1,p=1'', ''MDEyMw=='', ''cHcwMTI='']"
  by code_simp+

text \<open>
  C9. The version of an encoded hash is scanned and then not used. Two strings whose
  fields differ only in the version field, both versions scanning as \<^verbatim>\<open>v=<integer>\<close>,
  give the same result of \<^verbatim>\<open>VerifyHash\<close>; and \<^verbatim>\<open>VerifyHash\<close> returns the error
  \<^verbatim>\<open>ErrIncompatibleArgon2Version\<close> exactly when the string has six fields and its
  version field does not scan, so never for a version that scans, whatever its value.
\<close>

theorem version_is_discarded:
  "(\<forall>enc' f0 f1 f2 f2' f3 f4 f5 v v'.
      strings_Split enc (CHR ''$'') = [f0, f1, f2, f3, f4, f5] \<longrightarrow>
      strings_Split enc' (CHR ''$'') = [f0, f1, f2', f3, f4, f5] \<longrightarrow>
      Sscanf_version f2 = Inr v \<longrightarrow> Sscanf_version f2' = Inr v' \<longrightarrow>
      VerifyHash kdf password enc w = VerifyHash kdf password enc' w) \<and>
   ((\<exists>b. fst (VerifyHash kdf password enc w) = Returns (b, Some ErrIncompatibleArgon2Version))
      \<longleftrightarrow>
    length (strings_Split enc (CHR ''$'')) = 6 \<and>
    (\<exists>e. Sscanf_version (strings_Split enc (CHR ''$'') ! 2) = Inl e))"
proof (intro conjI allI impI)
  fix enc' f0 f1 f2 f2' f3 f4 f5 v v'
  assume "strings_Split enc (CHR ''$'') = [f0, f1, f2, f3, f4, f5]"
    and "strings_Split enc' (CHR ''$'') = [f0, f1, f2', f3, f4, f5]"
    and "Sscanf_version f2 = Inr v" and "Sscanf_version f2' = Inr v'"
  then have "decodeHash enc = decodeHash enc'"
    by (rule decodeHash_version_irrelevant)
  then show "VerifyHash kdf password enc w = VerifyHash kdf password enc' w"
    by (rule VerifyHash_same_decode)
next
  have "(\<exists>b. fst (VerifyHash kdf password enc w) = Returns (b, Some ErrIncompatibleArgon2Version))
      \<longleftrightarrow> decodeHash enc = Inl ErrIncompatibleArgon2Version"
  proof (cases "decodeHash enc")
    case (Inl e)
    then show ?thesis by (auto simp: VerifyHash_undecoded)
  next
    case (Inr r)
    obtain a salt hash where "r = (a, salt, hash)" by (cases r)
    with Inr VerifyHash_decoded [of enc a salt hash kdf password w] show ?thesis
      by (auto split: option.splits)
  qed
  then show "(\<exists>b. fst (VerifyHash kdf password enc w) = Returns (b, Some ErrIncompatibleArgon2Version))
      \<longleftrightarrow>
    length (strings_Split enc (CHR ''$'')) = 6 \<and>
    (\<exists>e. Sscanf_version (strings_Split enc (CHR ''$'') ! 2) = Inl e)"
    by (simp only: decodeHash_version_error_iff)
qed

theorem version_is_discarded_witness:
  "VerifyHash sample_IDKey ''pw'' ''$argon2id$v=19$m=8,t=1,p=1$MDEyMw==$cHcwMTI='' sample_world =
   VerifyHash sample_IDKey ''pw'' ''$argon2id$v=-7$m=8,t=1,p=1$MDEyMw==$cHcwMTI='' sample_world \<and>
   (\<exists>b. fst (VerifyHash sample_IDKey ''pw'' ''$argon2id$version$m=8,t=1,p=1$MDEyMw==$cHcwMTI=''
            sample_world) = Returns (b, Some ErrIncompatibleArgon2Version))"
proof -
  note t = version_is_discarded
  note t1 = t [THEN conjunct1, rule_format]
  note t2 = t [THEN conjunct2, THEN iffD2]
  have 1: "VerifyHash sample_IDKey ''pw'' ''$argon2id$v=19$m=8,t=1,p=1$MDEyMw==$cHcwMTI=''
        sample_world =
      VerifyHash sample_IDKey ''pw'' ''$argon2id$v=-7$m=8,t=1,p=1$MDEyMw==$cHcwMTI='' sample_world"
    by (rule t1 [OF strings_Split_samples(1,2) Sscanf_version_samples(1,2)])
  have 2: "\<exists>b. fst (VerifyHash sample_IDKey ''pw''
        ''$argon2id$version$m=8,t=1,p=1$MDEyMw==$cHcwMTI='' sample_world)
        = Returns (b, Some ErrIncompatibleArgon2Version)"
    by (rule t2) (simp add: strings_Split_samples(3) Sscanf_version_samples(3))
  from 1 2 show ?thesis by (rule conjI)
qed




section \<open>The salt-length check\<close>

text \<open>
  For a salt shorter than \<open>2\<^sup>3\<^sup>2\<close> bytes the check is exact: a non-empty salt of another
  length than \<^verbatim>\<open>SaltLen\<close> is rejected with \<^verbatim>\<open>ErrInvalidSaltLength\<close>, one line is logged, the
  derivation is not invoked and no random bytes are read.
\<close>

lemma wrong_salt_length_rejected:
  assumes "salt \<noteq> []" "length salt \<noteq> unat (SaltLen a)" "length salt < 2 ^ 32"
  shows "\<exists>w'. GenerateHash kdf a password salt w = (Returns ([], Some ErrInvalidSaltLength), w') \<and>
           derivations w' = derivations w \<and> entropy w' = entropy w"
proof -
  from assms(3) have "unat (of_nat (length salt) :: uint32) = length salt"
    by (simp add: unat_of_nat take_bit_nat_eq_self)
  with assms(2) have "(of_nat (length salt) :: uint32) \<noteq> SaltLen a"
    by auto
  with assms(1) show ?thesis
    by (simp add: GenerateHash_def validateSaltLength_def)
qed

text \<open>
  C3. The claim is that every non-empty salt whose length differs from \<^verbatim>\<open>SaltLen\<close> is
  rejected with \<^verbatim>\<open>ErrInvalidSaltLength\<close> before any derivation. The check compares
  \<^verbatim>\<open>uint32(len(salt))\<close>, so a salt of \<open>2\<^sup>3\<^sup>2 + 32\<close> bytes passes it against \<^verbatim>\<open>SaltLen = 32\<close>:
  the derivation is invoked and the result is not that error.
\<close>

theorem oversized_salt_not_rejected:
  "validateSaltLength (replicate (2 ^ 32 + 32) (CHR 0x00)) (SaltLen DefaultArgon2IDHash) w
     = (None, w) \<and>
   derivations (snd (GenerateHash kdf DefaultArgon2IDHash password
                       (replicate (2 ^ 32 + 32) (CHR 0x00)) w)) = Suc (derivations w) \<and>
   fst (GenerateHash kdf DefaultArgon2IDHash password (replicate (2 ^ 32 + 32) (CHR 0x00)) w)
     \<noteq> Returns ([], Some ErrInvalidSaltLength)"
proof -
  let ?salt = "replicate (2 ^ 32 + 32) (CHR 0x00)"
  have w: "(of_nat (length ?salt) :: uint32) = 32"
    by simp
  have v: "validateSaltLength ?salt (SaltLen DefaultArgon2IDHash) w = (None, w)"
    unfolding validateSaltLength_def w by (simp add: DefaultArgon2IDHash_def)
  have n: "length ?salt \<noteq> 0" by simp
  have g: "GenerateHash kdf DefaultArgon2IDHash password ?salt w =
      (case kdf password ?salt 2 (19 * 1024) 1 32 of
         None \<Rightarrow> Panics
       | Some hash \<Rightarrow> Returns (encodeHashComponents ?salt hash DefaultArgon2IDHash, None),
       w\<lparr>derivations := Suc (derivations w)\<rparr>)"
    unfolding GenerateHash_def v using n
    by (simp add: argon2_IDKey_def DefaultArgon2IDHash_def split: option.splits)
  show ?thesis
    unfolding g using v by (simp split: option.splits)
qed

section \<open>Verifying another password\<close>

lemma GenerateHash_empty_salt:
  assumes "unat (SaltLen c) \<le> length (entropy w)"
    and "kdf p (take (unat (SaltLen c)) (entropy w)) (Time c) (Memory c) (Threads c) (KeyLen c)
         = Some hash"
  shows "\<exists>w'. GenerateHash kdf c p [] w =
           (Returns (encodeHashComponents (take (unat (SaltLen c)) (entropy w)) hash c, None), w')"
  using assms
  by (simp add: GenerateHash_def validateSaltLength_def generateBytes_def rand_Read_def
      argon2_IDKey_def)

text \<open>
  \<^verbatim>\<open>VerifyHash\<close> on a generated string compares the digest of the password given with
  the digest the string was generated from.
\<close>

lemma VerifyHash_on_generated:
  assumes "keyLen_respected kdf"
    and "GenerateHash kdf c p1 [] w = (Returns (enc, None), w')"
    and "kdf p2 (take (unat (SaltLen c)) (entropy w)) (Time c) (Memory c) (Threads c) (KeyLen c)
         = Some h2"
  shows "fst (VerifyHash kdf p2 enc w'') =
           Returns (Some h2 = kdf p1 (take (unat (SaltLen c)) (entropy w))
                                (Time c) (Memory c) (Threads c) (KeyLen c), None)"
proof -
  let ?salt = "take (unat (SaltLen c)) (entropy w)"
  from GenerateHash_Returns [OF assms(2)] obtain salt hash
    where kdf: "kdf p1 salt (Time c) (Memory c) (Threads c) (KeyLen c) = Some hash"
      and enc: "enc = encodeHashComponents salt hash c"
      and salt: "salt = ?salt" by blast
  from assms(1) kdf have "length hash = unat (KeyLen c)"
    by (auto simp: keyLen_respected_def)
  then have len: "(of_nat (length hash) :: uint32) = KeyLen c"
    by simp
  have "decodeHash enc =
      Inr (\<lparr>Time = Time c, Memory = Memory c, Threads = Threads c,
             KeyLen = of_nat (length hash), SaltLen = of_nat (length salt)\<rparr>, salt, hash)"
    unfolding enc by (rule decodeHash_encodeHashComponents)
  from VerifyHash_decoded [OF this, of kdf p2 w''] kdf len assms(3) salt show ?thesis
    by auto
qed

text \<open>
  C5, as amended. \<^verbatim>\<open>VerifyHash\<close> with a password \<open>p2\<close> on the string that \<^verbatim>\<open>GenerateHash\<close>
  returned for \<open>p1\<close> and an empty salt returns no error; it returns \<^verbatim>\<open>(false, nil)\<close> when
  the digest derived from \<open>p2\<close> (same salt, same parameters) differs from the one derived
  from \<open>p1\<close>, and \<^verbatim>\<open>(true, nil)\<close> when the two digests are equal.
\<close>

theorem other_password_rejected_unless_digests_equal:
  assumes "keyLen_respected kdf"
    and "GenerateHash kdf c p1 [] w = (Returns (enc, None), w')"
    and "kdf p2 (take (unat (SaltLen c)) (entropy w)) (Time c) (Memory c) (Threads c) (KeyLen c)
         = Some h2"
  shows "fst (VerifyHash kdf p2 enc w'') =
           Returns (Some h2 = kdf p1 (take (unat (SaltLen c)) (entropy w))
                                (Time c) (Memory c) (Threads c) (KeyLen c), None)"
  using assms by (rule VerifyHash_on_generated)

theorem other_password_rejected_unless_digests_equal_witness:
  "keyLen_respected sample_IDKey \<and>
   GenerateHash sample_IDKey sample_params ''pw'' [] sample_world =
     (Returns (''$argon2id$v=19$m=8,t=1,p=1$MDEyMw==$cHcwMTI='', None),
      \<lparr>entropy = ''456789abcdefghijklmnopqrstuvwxyz'', derivations = 1, log_lines = []\<rparr>) \<and>
   fst (VerifyHash sample_IDKey ''wrong'' ''$argon2id$v=19$m=8,t=1,p=1$MDEyMw==$cHcwMTI=''
          sample_world) = Returns (False, None)"
proof -
  have k: "sample_IDKey ''wrong'' (take (unat (SaltLen sample_params)) (entropy sample_world))
      (Time sample_params) (Memory sample_params) (Threads sample_params) (KeyLen sample_params)
      = Some ''wrong''"
    by code_simp
  have k1: "sample_IDKey ''pw'' (take (unat (SaltLen sample_params)) (entropy sample_world))
      (Time sample_params) (Memory sample_params) (Threads sample_params) (KeyLen sample_params)
      = Some ''pw012''"
    by code_simp
  from other_password_rejected_unless_digests_equal
    [OF keyLen_respected_sample GenerateHash_sample k, of sample_world]
  have "fst (VerifyHash sample_IDKey ''wrong'' ''$argon2id$v=19$m=8,t=1,p=1$MDEyMw==$cHcwMTI=''
          sample_world) = Returns (False, None)"
    unfolding k1 by simp
  with keyLen_respected_sample GenerateHash_sample show ?thesis by (intro conjI)
qed

lemma finite_bytes_of_length: "finite {xs :: bytes. length xs = n}"
  using finite_lists_length_eq [of "UNIV :: char set" n] by simp

text \<open>
  There are infinitely many passwords and finitely many digests of a given length, so
  two distinct passwords have the same digest, whatever the derivation function.
\<close>

lemma digest_collision:
  fixes f :: "bytes \<Rightarrow> bytes"
  assumes "\<And>p. length (f p) = n"
  shows "\<exists>p1 p2. p1 \<noteq> p2 \<and> f p1 = f p2"
proof (rule ccontr)
  assume "\<not> (\<exists>p1 p2. p1 \<noteq> p2 \<and> f p1 = f p2)"
  then have "inj f" by (auto simp: inj_on_def)
  moreover have "range f \<subseteq> {xs. length xs = n}"
    using assms by auto
  then have "finite (range f)"
    using finite_bytes_of_length by (rule finite_subset)
  ultimately have "finite (UNIV :: bytes set)"
    by (rule finite_imageD [rotated])
  then show False
    using infinite_UNIV_listI by blast
qed

text \<open>
  C5, as stated, fails: no derivation function that yields 32 bytes for the default
  parameters makes \<^verbatim>\<open>VerifyHash\<close> return \<^verbatim>\<open>(false, nil)\<close> for every pair of distinct
  passwords.
\<close>

theorem rejection_of_every_other_password_counterexample:
  "\<not> (\<exists>kdf. keyLen_respected kdf \<and>
        (\<forall>password salt. kdf password salt 2 (19 * 1024) 1 32 \<noteq> None) \<and>
        (\<forall>p1 p2 enc w'.
           p1 \<noteq> p2 \<longrightarrow>
           GenerateHash kdf DefaultArgon2IDHash p1 [] sample_world = (Returns (enc, None), w') \<longrightarrow>
           fst (VerifyHash kdf p2 enc w') = Returns (False, None)))"
proof
  assume "\<exists>kdf. keyLen_respected kdf \<and>
        (\<forall>password salt. kdf password salt 2 (19 * 1024) 1 32 \<noteq> None) \<and>
        (\<forall>p1 p2 enc w'.
           p1 \<noteq> p2 \<longrightarrow>
           GenerateHash kdf DefaultArgon2IDHash p1 [] sample_world = (Returns (enc, None), w') \<longrightarrow>
           fst (VerifyHash kdf p2 enc w') = Returns (False, None))"
  then obtain kdf where contract: "keyLen_respected kdf"
    and total: "\<And>password salt. kdf password salt 2 (19 * 1024) 1 32 \<noteq> None"
    and claim: "\<And>p1 p2 enc w'. p1 \<noteq> p2 \<Longrightarrow>
           GenerateHash kdf DefaultArgon2IDHash p1 [] sample_world = (Returns (enc, None), w') \<Longrightarrow>
           fst (VerifyHash kdf p2 enc w') = Returns (False, None)"
    by blast
  let ?c = DefaultArgon2IDHash
  let ?salt = "take (unat (SaltLen ?c)) (entropy sample_world)"
  have params: "Time ?c = 2" "Memory ?c = 19 * 1024" "Threads ?c = 1" "KeyLen ?c = 32"
    by (simp_all add: DefaultArgon2IDHash_def)
  define f where "f p = the (kdf p ?salt 2 (19 * 1024) 1 32)" for p
  have kdf: "kdf p ?salt (Time ?c) (Memory ?c) (Threads ?c) (KeyLen ?c) = Some (f p)" for p
    unfolding params f_def using total [of p ?salt] by auto
  have "length (f p) = 32" for p
    using contract kdf [of p] by (auto simp: keyLen_respected_def params)
  from digest_collision [of f 32, OF this] obtain p1 p2
    where ne: "p1 \<noteq> p2" and eq: "f p1 = f p2" by blast
  have "unat (SaltLen ?c) \<le> length (entropy sample_world)"
    by (simp add: DefaultArgon2IDHash_def sample_world_def)
  from GenerateHash_empty_salt [where kdf = kdf and p = p1, OF this kdf [of p1]] obtain w' where
    gen: "GenerateHash kdf ?c p1 [] sample_world =
            (Returns (encodeHashComponents ?salt (f p1) ?c, None), w')" by blast
  from claim [OF ne gen]
  have "fst (VerifyHash kdf p2 (encodeHashComponents ?salt (f p1) ?c) w') = Returns (False, None)" .
  moreover from VerifyHash_on_generated [OF contract gen kdf [of p2], of w']
  have "fst (VerifyHash kdf p2 (encodeHashComponents ?salt (f p1) ?c) w') = Returns (True, None)"
    unfolding kdf [of p1] eq by simp
  ultimately show False by simp
qed

section \<open>The low bits of the last character\<close>

text \<open>
  The decoder does not look at the unused low bits of the last character before the
  padding: \<^verbatim>\<open>cHcwMTI=\<close> and \<^verbatim>\<open>cHcwMTJ=\<close> decode to the same five bytes, and the record
  with the changed digest field still verifies.
\<close>

lemma tampered_digest_accepted_sample:
  "DecodeString ''cHcwMTI='' = (''pw012'', None) \<and>
   DecodeString ''cHcwMTJ='' = (''pw012'', None) \<and>
   fst (VerifyHash sample_IDKey ''pw'' ''$argon2id$v=19$m=8,t=1,p=1$MDEyMw==$cHcwMTJ=''
     sample_world) = Returns (True, None)"
  by code_simp

lemma EncodeToString_append:
  "length xs mod 3 = 0 \<Longrightarrow> EncodeToString (xs @ ys) = EncodeToString xs @ EncodeToString ys"
proof (induction xs rule: EncodeToString.induct)
  case 1
  show ?case by simp
next
  case (2 a)
  then show ?case by simp
next
  case (3 a b)
  then show ?case by simp
next
  case (4 a b c rest)
  from "4.prems" have "length rest mod 3 = 0" by simp
  with "4.IH" show ?case by (simp add: Let_def)
qed

lemma EncodeToString_3:
  "EncodeToString (a # b # c # rest) =
     (let v = of_char a * 65536 + of_char b * 256 + of_char c
      in encode6 (v div 262144) # encode6 (v div 4096) # encode6 (v div 64) # encode6 v #
         EncodeToString rest)"
  using pack3 [OF of_char_lt of_char_lt of_char_lt, of a b c]
  by (simp add: Let_def drop_bit_eq_div)

lemma EncodeToString_2:
  "EncodeToString [a, b] =
     (let v = of_char a * 65536 + of_char b * 256
      in [encode6 (v div 262144), encode6 (v div 4096), encode6 (v div 64), StdPadding])"
  using pack3 [OF of_char_lt of_char_lt, of 0 a b]
  by (simp add: Let_def drop_bit_eq_div)

lemma quantumBytes_of_3:
  fixes a b c :: char
  defines "v \<equiv> (of_char a :: nat) * 65536 + of_char b * 256 + of_char c"
  shows "quantumBytes [v div 262144 mod 64, v div 4096 mod 64, v div 64 mod 64, v mod 64] 4
         = [a, b, c]"
proof -
  define A B C where "A = (of_char a :: nat)" and "B = (of_char b :: nat)"
    and "C = (of_char c :: nat)"
  have A: "A < 256" and B: "B < 256" and C: "C < 256" by (simp_all add: A_def B_def C_def)
  have v: "v = A * 65536 + B * 256 + C" by (simp add: v_def A_def B_def C_def)
  have lt: "v < 16777216" using A B C by (simp add: v)
  have "quantumBytes [v div 262144 mod 64, v div 4096 mod 64, v div 64 mod 64, v mod 64] 4
      = [char_of (v div 65536), char_of (v div 256), char_of v]"
    using repack64 [OF lt]
      quantumBytes4 [of "v div 262144 mod 64" "v div 4096 mod 64" "v div 64 mod 64" "v mod 64"]
    by (simp only: mod_less_divisor zero_less_numeral)
  moreover have "v div 65536 = A"
    unfolding v by (rule byte_of_pack(1) [OF A B C])
  moreover have "v div 256 mod 256 = B"
    unfolding v by (rule byte_of_pack(2) [OF A B C])
  then have "char_of (v div 256) = char_of B"
    by (metis char_of_mod_256)
  moreover have "v mod 256 = C"
    unfolding v by (rule byte_of_pack(3) [OF A B C])
  then have "char_of v = char_of C"
    by (metis char_of_mod_256)
  ultimately show ?thesis
    by (simp add: A_def B_def C_def)
qed

text \<open>Decoding runs through a prefix that encodes whole groups of three bytes.\<close>

lemma Decode_encoded_prefix:
  "length xs mod 3 = 0 \<Longrightarrow>
     Decode (EncodeToString xs @ rest) si n =
       (case Decode rest (si + length (EncodeToString xs)) n of (out, err) \<Rightarrow> (xs @ out, err))"
proof (induction xs arbitrary: si rule: EncodeToString.induct)
  case 1
  show ?case by simp
next
  case (2 a)
  then show ?case by simp
next
  case (3 a b)
  then show ?case by simp
next
  case (4 a b c xs)
  from "4.prems" have m: "length xs mod 3 = 0" by simp
  define v where "v = (of_char a :: nat) * 65536 + of_char b * 256 + of_char c"
  have e: "EncodeToString (a # b # c # xs) @ rest =
      encode6 (v div 262144) # encode6 (v div 4096) # encode6 (v div 64) # encode6 v #
      (EncodeToString xs @ rest)"
    by (simp only: EncodeToString_3 Let_def v_def append_Cons)
  have q: "quantumBytes [v div 262144 mod 64, v div 4096 mod 64, v div 64 mod 64, v mod 64] 4
      = [a, b, c]"
    unfolding v_def by (rule quantumBytes_of_3)
  have l: "length (EncodeToString (a # b # c # xs)) = 4 + length (EncodeToString xs)"
    by (simp add: EncodeToString_3 Let_def)
  have ih: "Decode (EncodeToString xs @ rest) (si + 4) n =
      (case Decode rest (si + 4 + length (EncodeToString xs)) n of
         (out, err) \<Rightarrow> (xs @ out, err))"
    by (rule "4.IH" [OF refl m])
  have s: "si + (4 + length (EncodeToString xs)) = si + 4 + length (EncodeToString xs)"
    by simp
  show ?case
    unfolding e l s
    by (simp only: Decode.simps decodeQuantum_full q) (simp add: ih split: prod.splits)
qed


text \<open>
  The last group of an encoding of \<open>3k + 2\<close> bytes carries 16 bits in three characters:
  the two low bits of the third character are not used, and the character with the low
  bit set decodes to the same two bytes.
\<close>

lemma low_bit_ignored:
  fixes a b :: char
  defines "v \<equiv> (of_char a :: nat) * 65536 + of_char b * 256"
  shows "Decode [encode6 (v div 262144), encode6 (v div 4096), encode6 (v div 64 + 1), StdPadding]
           si n = ([a, b], None)"
    and "encode6 (v div 64 + 1) \<noteq> encode6 (v div 64)"
proof -
  define A B where "A = (of_char a :: nat)" and "B = (of_char b :: nat)"
  have A: "A < 256" and B: "B < 256" by (simp_all add: A_def B_def)
  have v: "v = A * 65536 + B * 256 + 0" by (simp add: v_def A_def B_def)
  have v64: "v + 64 = A * 65536 + B * 256 + 64" by (simp add: v)
  have lt: "v < 16777216" using A B by (simp add: v)
  define w where "w = v div 64"
  have "v = (A * 1024 + B * 4) * 64" by (simp add: v)
  then have w: "w = (A * 256 + B) * 4" and v0: "v mod 64 = 0"
    by (simp_all add: w_def)
  from w have w4: "w mod 4 = 0" by simp
  have "w mod 64 mod 4 = w mod 4"
    by (rule mod_mod_cancel) simp
  with w4 have "w mod 64 \<noteq> 63" by auto
  moreover have "w mod 64 < 64" by simp
  ultimately have "Suc (w mod 64) \<noteq> 64" by simp
  then have w1: "(w + 1) mod 64 = w mod 64 + 1" by (simp add: mod_Suc)
  from repack64 [OF lt] v0
  have "v div 262144 mod 64 * 262144 + v div 4096 mod 64 * 4096 + w mod 64 * 64 = v"
    unfolding w_def by linarith
  moreover have "x + y + z * 64 = v \<Longrightarrow> x + y + (z + 1) * 64 = v + 64" for x y z :: nat
    by simp
  ultimately have r: "v div 262144 mod 64 * 262144 + v div 4096 mod 64 * 4096 +
      (w + 1) mod 64 * 64 = v + 64"
    unfolding w1 by blast
  have "quantumBytes [v div 262144 mod 64, v div 4096 mod 64, (w + 1) mod 64] 3
      = [char_of ((v + 64) div 65536), char_of ((v + 64) div 256)]"
    using r quantumBytes3 [of "v div 262144 mod 64" "v div 4096 mod 64" "(w + 1) mod 64"]
    by (simp only: mod_less_divisor zero_less_numeral)
  moreover have "(v + 64) div 65536 = A"
    unfolding v64 by (rule byte_of_pack(1) [OF A B]) simp
  moreover have "(v + 64) div 256 mod 256 = B"
    unfolding v64 by (rule byte_of_pack(2) [OF A B]) simp
  then have "char_of ((v + 64) div 256) = char_of B"
    by (metis char_of_mod_256)
  ultimately have q: "quantumBytes [v div 262144 mod 64, v div 4096 mod 64, (w + 1) mod 64] 3
      = [a, b]"
    by (simp add: A_def B_def)
  show "Decode [encode6 (v div 262144), encode6 (v div 4096), encode6 (v div 64 + 1), StdPadding]
           si n = ([a, b], None)"
    unfolding w_def [symmetric]
    by (simp only: Decode.simps decodeQuantum_pad1 q) simp
  show "encode6 (v div 64 + 1) \<noteq> encode6 (v div 64)"
  proof
    assume "encode6 (v div 64 + 1) = encode6 (v div 64)"
    then have "decodeMap (encode6 (w + 1)) = decodeMap (encode6 w)"
      by (simp add: w_def)
    then have "(w + 1) mod 64 = w mod 64"
      by (simp only: decodeMap_encode6) simp
    with w1 show False by simp
  qed
qed

lemma strings_Split_record:
  assumes "CHR ''$'' \<notin> set f5"
  shows "strings_Split (''$argon2id$v=19$'' @ paramsField a @ ''$'' @ EncodeToString salt @
                        ''$'' @ f5) (CHR ''$'') =
           [[], ''argon2id'', ''v=19'', paramsField a, EncodeToString salt, f5]"
proof -
  have 5: "splitFrom [] f5 (CHR ''$'') = [f5]"
    using splitFrom_no_sep [OF assms, of "[]"] by simp
  have 4: "splitFrom [] (EncodeToString salt @ CHR ''$'' # f5) (CHR ''$'')
      = [EncodeToString salt, f5]"
    using splitFrom_sep [OF dollar_notin_EncodeToString, of "[]" salt] 5 by simp
  have 3: "splitFrom [] (paramsField a @ CHR ''$'' # EncodeToString salt @ CHR ''$'' # f5)
      (CHR ''$'') = [paramsField a, EncodeToString salt, f5]"
    using splitFrom_sep [OF dollar_notin_paramsField, of "[]" a] 4 by simp
  have 2: "splitFrom [] (''v=19'' @ CHR ''$'' # paramsField a @ CHR ''$'' # EncodeToString salt @
      CHR ''$'' # f5) (CHR ''$'') = [''v=19'', paramsField a, EncodeToString salt, f5]"
    using splitFrom_sep [of "CHR ''$''" "''v=19''" "[]"] 3 by simp
  have 1: "splitFrom [] (''argon2id'' @ CHR ''$'' # ''v=19'' @ CHR ''$'' # paramsField a @
      CHR ''$'' # EncodeToString salt @ CHR ''$'' # f5) (CHR ''$'')
      = [''argon2id'', ''v=19'', paramsField a, EncodeToString salt, f5]"
    using splitFrom_sep [of "CHR ''$''" "''argon2id''" "[]"] 2 by simp
  show ?thesis
    unfolding strings_Split_def
    using splitFrom_sep [of "CHR ''$''" "[]" "[]"] 1 by simp
qed

lemma decodeHash_record:
  assumes "CHR ''$'' \<notin> set f5" and "DecodeString f5 = (hash, None)"
  shows "decodeHash (''$argon2id$v=19$'' @ paramsField a @ ''$'' @ EncodeToString salt @
                     ''$'' @ f5) =
           Inr (\<lparr>Time = Time a, Memory = Memory a, Threads = Threads a,
                 KeyLen = of_nat (length hash), SaltLen = of_nat (length salt)\<rparr>, salt, hash)"
  unfolding decodeHash_def strings_Split_record [OF assms(1)]
  using assms(2)
  by (simp add: Sscanf_version_19 Sscanf_params_paramsField DecodeString_EncodeToString)

lemma encodeHashComponents_record:
  "encodeHashComponents salt hash a =
     ''$argon2id$v=19$'' @ paramsField a @ ''$'' @ EncodeToString salt @ ''$'' @
     EncodeToString hash"
  by (simp add: encodeHashComponents_def fmt_d_int_Argon2Version paramsField_def)

lemma encode6_not_dollar: "encode6 x \<noteq> CHR ''$''"
proof -
  have "CHR ''$'' \<notin> set encodeStd" by (simp add: encodeStd_def)
  with encode6_in_alphabet [of x] show ?thesis by auto
qed

text \<open>
  A record whose digest has \<open>3k + 2\<close> bytes still verifies after its last character
  before the padding has been replaced by the one with the low bit set.
\<close>

lemma changed_low_bit_verifies:
  assumes kdf: "kdf password salt (Time c) (Memory c) (Threads c) (KeyLen c) = Some h"
    and len: "length h = unat (KeyLen c)" and mod3: "length h mod 3 = 2"
  defines "enc \<equiv> encodeHashComponents salt h c"
  shows "\<exists>c'. c' \<noteq> enc ! (length enc - 2) \<and>
           length enc - length (last (strings_Split enc (CHR ''$''))) \<le> length enc - 2 \<and>
           length enc - 2 < length enc \<and>
           fst (VerifyHash kdf password (enc[length enc - 2 := c']) w) = Returns (True, None)"
proof -
  from mod3 have "length h \<noteq> 0" "length h \<noteq> 1" by auto
  then have l2: "2 \<le> length h" by linarith
  define xs where "xs = take (length h - 2) h"
  define t where "t = drop (length h - 2) h"
  from l2 have "length t = 2" by (simp add: t_def)
  then obtain a b where t: "t = [a, b]"
    by (auto simp: length_Suc_conv numeral_2_eq_2)
  have h: "h = xs @ [a, b]"
    unfolding t [symmetric] xs_def t_def by simp
  from l2 have "length xs + 2 = length h" by (simp add: xs_def)
  with mod3 have xs: "length xs mod 3 = 0" by presburger
  define v where "v = (of_char a :: nat) * 65536 + of_char b * 256"
  define e0 e1 e2 e2' where "e0 = encode6 (v div 262144)" and "e1 = encode6 (v div 4096)"
    and "e2 = encode6 (v div 64)" and "e2' = encode6 (v div 64 + 1)"
  define pre where "pre = ''$argon2id$v=19$'' @ paramsField c @ ''$'' @ EncodeToString salt @ ''$''"
  define P where "P = pre @ EncodeToString xs @ [e0, e1]"
  have Eh: "EncodeToString h = EncodeToString xs @ [e0, e1, e2, StdPadding]"
    unfolding h EncodeToString_append [OF xs]
    by (simp only: EncodeToString_2 Let_def v_def e0_def e1_def e2_def)
  have enc: "enc = P @ [e2, StdPadding]"
    by (simp add: enc_def encodeHashComponents_record Eh P_def pre_def)
  have lenP: "length enc - 2 = length P" by (simp add: enc)
  have nth: "enc ! (length enc - 2) = e2"
    unfolding lenP by (simp add: enc)
  have upd: "enc[length enc - 2 := e2'] =
      ''$argon2id$v=19$'' @ paramsField c @ ''$'' @ EncodeToString salt @ ''$'' @
      (EncodeToString xs @ [e0, e1, e2', StdPadding])"
  proof -
    have "enc[length P := e2'] = P @ [e2', StdPadding]"
      unfolding enc by simp
    also have "\<dots> = ''$argon2id$v=19$'' @ paramsField c @ ''$'' @ EncodeToString salt @ ''$'' @
      (EncodeToString xs @ [e0, e1, e2', StdPadding])"
      by (simp add: P_def pre_def)
    finally show ?thesis unfolding lenP .
  qed
  have ne: "e2' \<noteq> e2"
    unfolding e2_def e2'_def v_def by (rule low_bit_ignored(2))
  have dollar: "CHR ''$'' \<notin> set (EncodeToString xs @ [e0, e1, e2', StdPadding])"
    using dollar_notin_EncodeToString [of xs]
    by (simp add: e0_def e1_def e2'_def encode6_not_dollar [symmetric] StdPadding_def)
  have "Decode [e0, e1, e2', StdPadding] si n = ([a, b], None)" for si n
    unfolding e0_def e1_def e2'_def v_def by (rule low_bit_ignored(1))
  then have dec: "DecodeString (EncodeToString xs @ [e0, e1, e2', StdPadding]) = (h, None)"
    by (simp add: DecodeString_def Decode_encoded_prefix [OF xs] h)
  have d: "decodeHash (enc[length enc - 2 := e2']) =
      Inr (\<lparr>Time = Time c, Memory = Memory c, Threads = Threads c,
             KeyLen = of_nat (length h), SaltLen = of_nat (length salt)\<rparr>, salt, h)"
    unfolding upd by (rule decodeHash_record [OF dollar dec])
  have "(of_nat (length h) :: uint32) = KeyLen c" by (simp add: len)
  with VerifyHash_decoded [OF d, of kdf password w] kdf
  have ver: "fst (VerifyHash kdf password (enc[length enc - 2 := e2']) w) = Returns (True, None)"
    by simp
  have "strings_Split enc (CHR ''$'') =
      [[], ''argon2id'', ''v=19'', paramsField c, EncodeToString salt, EncodeToString h]"
    unfolding enc_def by (rule strings_Split_encoded)
  then have "last (strings_Split enc (CHR ''$'')) = EncodeToString h" by simp
  then have seg: "length enc - length (last (strings_Split enc (CHR ''$''))) \<le> length enc - 2"
    by (simp add: Eh)
  have "length enc - 2 < length enc" by (simp add: enc)
  with ne nth ver seg show ?thesis by blast
qed

text \<open>
  C6, as stated, fails: whatever derivation function yields the 32-byte digests of the
  default parameters, some single byte of the digest field of a generated record can be
  changed so that \<^verbatim>\<open>VerifyHash\<close> with the original password still returns \<^verbatim>\<open>(true, nil)\<close>.
\<close>

theorem changed_digest_byte_counterexample:
  "\<not> (\<exists>kdf. keyLen_respected kdf \<and>
        (\<forall>password salt. kdf password salt 2 (19 * 1024) 1 32 \<noteq> None) \<and>
        (\<forall>password enc w' i c.
           GenerateHash kdf DefaultArgon2IDHash password [] sample_world
             = (Returns (enc, None), w') \<longrightarrow>
           length enc - length (last (strings_Split enc (CHR ''$''))) \<le> i \<longrightarrow>
           i < length enc \<longrightarrow> c \<noteq> enc ! i \<longrightarrow>
           fst (VerifyHash kdf password (enc[i := c]) w') = Returns (False, None)))"
proof
  assume "\<exists>kdf. keyLen_respected kdf \<and>
        (\<forall>password salt. kdf password salt 2 (19 * 1024) 1 32 \<noteq> None) \<and>
        (\<forall>password enc w' i c.
           GenerateHash kdf DefaultArgon2IDHash password [] sample_world
             = (Returns (enc, None), w') \<longrightarrow>
           length enc - length (last (strings_Split enc (CHR ''$''))) \<le> i \<longrightarrow>
           i < length enc \<longrightarrow> c \<noteq> enc ! i \<longrightarrow>
           fst (VerifyHash kdf password (enc[i := c]) w') = Returns (False, None))"
  then obtain kdf where contract: "keyLen_respected kdf"
    and total: "\<And>password salt. kdf password salt 2 (19 * 1024) 1 32 \<noteq> None"
    and claim: "\<And>password enc w' i c.
           GenerateHash kdf DefaultArgon2IDHash password [] sample_world
             = (Returns (enc, None), w') \<Longrightarrow>
           length enc - length (last (strings_Split enc (CHR ''$''))) \<le> i \<Longrightarrow>
           i < length enc \<Longrightarrow> c \<noteq> enc ! i \<Longrightarrow>
           fst (VerifyHash kdf password (enc[i := c]) w') = Returns (False, None)"
    by blast
  let ?c = DefaultArgon2IDHash
  let ?salt = "take (unat (SaltLen ?c)) (entropy sample_world)"
  have params: "Time ?c = 2" "Memory ?c = 19 * 1024" "Threads ?c = 1" "KeyLen ?c = 32"
    by (simp_all add: DefaultArgon2IDHash_def)
  from total [of "[]" ?salt] obtain h where "kdf [] ?salt 2 (19 * 1024) 1 32 = Some h"
    by auto
  then have kdf: "kdf [] ?salt (Time ?c) (Memory ?c) (Threads ?c) (KeyLen ?c) = Some h"
    unfolding params .
  with contract have len: "length h = unat (KeyLen ?c)"
    by (auto simp: keyLen_respected_def)
  then have mod3: "length h mod 3 = 2"
    by (simp add: params)
  have "unat (SaltLen ?c) \<le> length (entropy sample_world)"
    by (simp add: DefaultArgon2IDHash_def sample_world_def)
  from GenerateHash_empty_salt [where kdf = kdf and p = "[]", OF this kdf] obtain w' where
    gen: "GenerateHash kdf ?c [] [] sample_world =
            (Returns (encodeHashComponents ?salt h ?c, None), w')" by blast
  let ?enc = "encodeHashComponents ?salt h ?c"
  from changed_low_bit_verifies [where kdf = kdf and password = "[]" and w = w',
      OF kdf len mod3]
  obtain c' where "c' \<noteq> ?enc ! (length ?enc - 2)"
    and "length ?enc - length (last (strings_Split ?enc (CHR ''$''))) \<le> length ?enc - 2"
    and "length ?enc - 2 < length ?enc"
    and ok: "fst (VerifyHash kdf [] (?enc[length ?enc - 2 := c']) w') = Returns (True, None)"
    by blast
  from claim [OF gen this(2,3,1)]
  have "fst (VerifyHash kdf [] (?enc[length ?enc - 2 := c']) w') = Returns (False, None)" .
  with ok show False by simp
qed

section \<open>A changed character of the digest field\<close>

text \<open>A number below \<open>2\<^sup>2\<^sup>4\<close> is given by its three bytes.\<close>

lemma three_bytes_eq:
  fixes v v' :: nat
  assumes "v div 65536 = v' div 65536" and "v div 256 mod 256 = v' div 256 mod 256"
  shows "v div 256 = v' div 256"
proof -
  have "v div 256 div 256 = v div 65536" "v' div 256 div 256 = v' div 65536"
    by (simp_all add: div_mult2_eq [symmetric])
  with assms(1) have "v div 256 div 256 = v' div 256 div 256" by simp
  with assms(2) div_mult_mod_eq [of "v div 256" 256] div_mult_mod_eq [of "v' div 256" 256]
  show ?thesis by metis
qed

lemma char_of_eq_mod: "char_of (m :: nat) = char_of n \<longleftrightarrow> m mod 256 = n mod 256"
  by (simp add: char_of_eq_iff take_bit_eq_mod)

lemma pack_bound:
  fixes d0 d1 d2 d3 :: nat
  assumes "d0 < 64" "d1 < 64" "d2 < 64" "d3 < 64"
  shows "d0 * 262144 + d1 * 4096 + d2 * 64 + d3 < 16777216"
  using assms by simp

lemma divmod_step:
  fixes q r m :: nat
  assumes "r < m"
  shows "(q * m + r) div m = q" and "(q * m + r) mod m = r"
  using assms by simp_all

text \<open>The 6-bit values of a group of four characters, from the 24 bits they make.\<close>

lemma digits_of_pack:
  fixes d0 d1 d2 d3 :: nat
  assumes "d1 < 64" "d2 < 64" "d3 < 64"
  defines "v \<equiv> d0 * 262144 + d1 * 4096 + d2 * 64 + d3"
  shows "v mod 64 = d3" and "v div 64 mod 64 = d2" and "v div 4096 mod 64 = d1"
    and "v div 262144 = d0"
proof -
  have a: "v = (d0 * 4096 + d1 * 64 + d2) * 64 + d3" by (simp add: v_def)
  show "v mod 64 = d3" unfolding a by (rule divmod_step(2) [OF assms(3)])
  have b: "v div 64 = d0 * 4096 + d1 * 64 + d2"
    unfolding a by (rule divmod_step(1) [OF assms(3)])
  have b': "d0 * 4096 + d1 * 64 + d2 = (d0 * 64 + d1) * 64 + d2" by simp
  show "v div 64 mod 64 = d2" unfolding b b' by (rule divmod_step(2) [OF assms(2)])
  have "v div 4096 = v div 64 div 64" by (simp add: div_mult2_eq [symmetric])
  also have "\<dots> = d0 * 64 + d1" unfolding b b' by (rule divmod_step(1) [OF assms(2)])
  finally have c: "v div 4096 = d0 * 64 + d1" .
  show "v div 4096 mod 64 = d1" unfolding c by (rule divmod_step(2) [OF assms(1)])
  have "v div 262144 = v div 4096 div 64" by (simp add: div_mult2_eq [symmetric])
  also have "\<dots> = d0" unfolding c by (rule divmod_step(1) [OF assms(1)])
  finally show "v div 262144 = d0" .
qed

text \<open>The two high bytes of the 24 bits, when the last character is missing.\<close>

lemma high_bytes_of_pack:
  fixes d0 d1 d2 :: nat
  assumes "d1 < 64" "d2 < 64"
  defines "v \<equiv> d0 * 262144 + d1 * 4096 + d2 * 64"
  shows "v div 256 = (d0 * 64 + d1) * 16 + d2 div 4"
    and "v div 65536 = d0 * 4 + d1 div 16"
proof -
  have a: "v = (d0 * 4096 + d1 * 64 + d2) * 64 + 0" by (simp add: v_def)
  have b: "v div 64 = d0 * 4096 + d1 * 64 + d2"
    unfolding a by (rule divmod_step(1)) simp
  have b': "d0 * 4096 + d1 * 64 + d2 = (d0 * 64 + d1) * 16 * 4 + d2" by simp
  have "v div 256 = v div 64 div 4" by (simp add: div_mult2_eq [symmetric])
  also have "\<dots> = ((d0 * 64 + d1) * 16 * 4 + d2) div 4" unfolding b b' ..
  also have "\<dots> = (d0 * 64 + d1) * 16 + d2 div 4" by simp
  finally show "v div 256 = (d0 * 64 + d1) * 16 + d2 div 4" .
  have c': "d0 * 4096 + d1 * 64 + d2 = (d0 * 64 + d1) * 64 + d2" by simp
  have "v div 4096 = v div 64 div 64" by (simp add: div_mult2_eq [symmetric])
  also have "\<dots> = d0 * 64 + d1" unfolding b c' by (rule divmod_step(1) [OF assms(2)])
  finally have c: "v div 4096 = d0 * 64 + d1" .
  have "v div 65536 = v div 4096 div 16" by (simp add: div_mult2_eq [symmetric])
  also have "\<dots> = (d0 * 4 * 16 + d1) div 16" unfolding c by simp
  also have "\<dots> = d0 * 4 + d1 div 16" by simp
  finally show "v div 65536 = d0 * 4 + d1 div 16" .
qed

text \<open>
  Which values of the characters give the same bytes: all four of a full group, the
  first two and the four high bits of the third when one character is missing, the
  first and the two high bits of the second when two are missing.
\<close>

lemma quantumBytes4_inj:
  assumes d: "d0 < 64" "d1 < 64" "d2 < 64" "d3 < 64"
    and e: "e0 < 64" "e1 < 64" "e2 < 64" "e3 < 64"
    and eq: "quantumBytes [d0, d1, d2, d3] 4 = quantumBytes [e0, e1, e2, e3] 4"
  shows "d0 = e0 \<and> d1 = e1 \<and> d2 = e2 \<and> d3 = e3"
proof -
  define v where "v = d0 * 262144 + d1 * 4096 + d2 * 64 + d3"
  define v' where "v' = e0 * 262144 + e1 * 4096 + e2 * 64 + e3"
  have lt: "v < 16777216" "v' < 16777216"
    unfolding v_def v'_def by (rule pack_bound [OF d], rule pack_bound [OF e])
  from eq have c: "char_of (v div 65536) = char_of (v' div 65536)"
      "char_of (v div 256) = char_of (v' div 256)" "char_of v = char_of v'"
    unfolding quantumBytes4 [OF d] quantumBytes4 [OF e] v_def v'_def by simp_all
  from lt have "v div 65536 < 256" "v' div 65536 < 256" by simp_all
  with c(1) have 1: "v div 65536 = v' div 65536" by (simp add: char_of_eq_mod)
  from c(2) have 2: "v div 256 mod 256 = v' div 256 mod 256" by (simp add: char_of_eq_mod)
  from c(3) have 3: "v mod 256 = v' mod 256" by (simp add: char_of_eq_mod)
  from three_bytes_eq [OF 1 2] 3 div_mult_mod_eq [of v 256] div_mult_mod_eq [of v' 256]
  have "v = v'" by metis
  with digits_of_pack [OF d(2-4), of d0] digits_of_pack [OF e(2-4), of e0]
  show ?thesis unfolding v_def v'_def by metis
qed

lemma quantumBytes3_inj:
  assumes d: "d0 < 64" "d1 < 64" "d2 < 64"
    and e: "e0 < 64" "e1 < 64" "e2 < 64"
    and eq: "quantumBytes [d0, d1, d2] 3 = quantumBytes [e0, e1, e2] 3"
  shows "d0 = e0 \<and> d1 = e1 \<and> d2 div 4 = e2 div 4"
proof -
  define v where "v = d0 * 262144 + d1 * 4096 + d2 * 64"
  define v' where "v' = e0 * 262144 + e1 * 4096 + e2 * 64"
  have lt: "v < 16777216" "v' < 16777216"
    unfolding v_def v'_def using pack_bound [OF d, of 0] pack_bound [OF e, of 0] by simp_all
  from eq have c: "char_of (v div 65536) = char_of (v' div 65536)"
      "char_of (v div 256) = char_of (v' div 256)"
    unfolding quantumBytes3 [OF d] quantumBytes3 [OF e] v_def v'_def by simp_all
  from lt have "v div 65536 < 256" "v' div 65536 < 256" by simp_all
  with c(1) have 1: "v div 65536 = v' div 65536" by (simp add: char_of_eq_mod)
  from c(2) have 2: "v div 256 mod 256 = v' div 256 mod 256" by (simp add: char_of_eq_mod)
  have w: "(d0 * 64 + d1) * 16 + d2 div 4 = (e0 * 64 + e1) * 16 + e2 div 4"
    using three_bytes_eq [OF 1 2]
    unfolding v_def v'_def high_bytes_of_pack(1) [OF d(2,3)] high_bytes_of_pack(1) [OF e(2,3)] .
  have s: "d2 div 4 < 16" "e2 div 4 < 16" using d(3) e(3) by simp_all
  from w have "((d0 * 64 + d1) * 16 + d2 div 4) mod 16 = ((e0 * 64 + e1) * 16 + e2 div 4) mod 16"
    by simp
  then have l: "d2 div 4 = e2 div 4"
    unfolding divmod_step(2) [OF s(1)] divmod_step(2) [OF s(2)] .
  from w have "((d0 * 64 + d1) * 16 + d2 div 4) div 16 = ((e0 * 64 + e1) * 16 + e2 div 4) div 16"
    by simp
  then have h: "d0 * 64 + d1 = e0 * 64 + e1"
    unfolding divmod_step(1) [OF s(1)] divmod_step(1) [OF s(2)] .
  then have "(d0 * 64 + d1) mod 64 = (e0 * 64 + e1) mod 64"
      "(d0 * 64 + d1) div 64 = (e0 * 64 + e1) div 64" by simp_all
  then have "d1 = e1" "d0 = e0"
    unfolding divmod_step [OF d(2)] divmod_step [OF e(2)] by simp_all
  with l show ?thesis by simp
qed

lemma quantumBytes2_inj:
  assumes d: "d0 < 64" "d1 < 64"
    and e: "e0 < 64" "e1 < 64"
    and eq: "quantumBytes [d0, d1] 2 = quantumBytes [e0, e1] 2"
  shows "d0 = e0 \<and> d1 div 16 = e1 div 16"
proof -
  define v where "v = d0 * 262144 + d1 * 4096"
  define v' where "v' = e0 * 262144 + e1 * 4096"
  have lt: "v < 16777216" "v' < 16777216"
    unfolding v_def v'_def using pack_bound [OF d, of 0 0] pack_bound [OF e, of 0 0]
    by simp_all
  from eq have c: "char_of (v div 65536) = char_of (v' div 65536)"
    unfolding quantumBytes2 [OF d] quantumBytes2 [OF e] v_def v'_def by simp_all
  from lt have "v div 65536 < 256" "v' div 65536 < 256" by simp_all
  with c have 1: "v div 65536 = v' div 65536" by (simp add: char_of_eq_mod)
  have "v = d0 * 262144 + d1 * 4096 + 0 * 64" "v' = e0 * 262144 + e1 * 4096 + 0 * 64"
    by (simp_all add: v_def v'_def)
  with 1 have w: "d0 * 4 + d1 div 16 = e0 * 4 + e1 div 16"
    using high_bytes_of_pack(2) [OF d(2), of 0 d0] high_bytes_of_pack(2) [OF e(2), of 0 e0]
    by simp
  have s: "d1 div 16 < 4" "e1 div 16 < 4" using d(2) e(2) by simp_all
  from w have "(d0 * 4 + d1 div 16) mod 4 = (e0 * 4 + e1 div 16) mod 4"
      "(d0 * 4 + d1 div 16) div 4 = (e0 * 4 + e1 div 16) div 4" by simp_all
  then show ?thesis
    unfolding divmod_step [OF s(1)] divmod_step [OF s(2)] by simp
qed


lemma quantumBytes4_eq_iff:
  assumes "d0 < 64" "d1 < 64" "d2 < 64" "d3 < 64" "e0 < 64" "e1 < 64" "e2 < 64" "e3 < 64"
  shows "quantumBytes [d0, d1, d2, d3] 4 = quantumBytes [e0, e1, e2, e3] 4 \<longleftrightarrow>
           d0 = e0 \<and> d1 = e1 \<and> d2 = e2 \<and> d3 = e3"
  using quantumBytes4_inj [OF assms] by auto

lemma quantumBytes3_eq_iff:
  assumes d: "d0 < 64" "d1 < 64" "d2 < 64" and e: "e0 < 64" "e1 < 64" "e2 < 64"
  shows "quantumBytes [d0, d1, d2] 3 = quantumBytes [e0, e1, e2] 3 \<longleftrightarrow>
           d0 = e0 \<and> d1 = e1 \<and> d2 div 4 = e2 div 4"
proof
  assume "quantumBytes [d0, d1, d2] 3 = quantumBytes [e0, e1, e2] 3"
  then show "d0 = e0 \<and> d1 = e1 \<and> d2 div 4 = e2 div 4"
    by (rule quantumBytes3_inj [OF d e])
next
  assume "d0 = e0 \<and> d1 = e1 \<and> d2 div 4 = e2 div 4"
  then show "quantumBytes [d0, d1, d2] 3 = quantumBytes [e0, e1, e2] 3"
    unfolding quantumBytes3 [OF d] quantumBytes3 [OF e]
      high_bytes_of_pack [OF d(2,3)] high_bytes_of_pack [OF e(2,3)]
    by simp
qed

lemma quantumBytes2_eq_iff:
  assumes d: "d0 < 64" "d1 < 64" and e: "e0 < 64" "e1 < 64"
  shows "quantumBytes [d0, d1] 2 = quantumBytes [e0, e1] 2 \<longleftrightarrow>
           d0 = e0 \<and> d1 div 16 = e1 div 16"
proof
  assume "quantumBytes [d0, d1] 2 = quantumBytes [e0, e1] 2"
  then show "d0 = e0 \<and> d1 div 16 = e1 div 16"
    by (rule quantumBytes2_inj [OF d e])
next
  assume a: "d0 = e0 \<and> d1 div 16 = e1 div 16"
  have "(d0 * 262144 + d1 * 4096) div 65536 = d0 * 4 + d1 div 16"
      "(e0 * 262144 + e1 * 4096) div 65536 = e0 * 4 + e1 div 16"
    using high_bytes_of_pack(2) [OF d(2), of 0 d0] high_bytes_of_pack(2) [OF e(2), of 0 e0]
    by simp_all
  with a show "quantumBytes [d0, d1] 2 = quantumBytes [e0, e1] 2"
    unfolding quantumBytes2 [OF d] quantumBytes2 [OF e] by simp
qed

lemma index_of_Some:
  "index_of c xs i = Some k \<Longrightarrow> k < i + length xs \<and> c \<in> set xs"
proof (induction xs arbitrary: i)
  case Nil
  then show ?case by simp
next
  case (Cons a xs)
  show ?case
  proof (cases "a = c")
    case True
    with Cons.prems show ?thesis by simp
  next
    case False
    with Cons.prems have "index_of c xs (Suc i) = Some k" by simp
    from Cons.IH [OF this] show ?thesis by simp
  qed
qed

lemma decodeMap_Some:
  assumes "decodeMap c = Some d"
  shows "d < 64" and "c \<in> set encodeStd"
  using index_of_Some [of c encodeStd 0 d] assms
  by (simp_all add: decodeMap_def length_encodeStd)

lemma decodeQuantum_alphabet4:
  assumes "decodeMap c0 = Some d0" "decodeMap c1 = Some d1" "decodeMap c2 = Some d2"
    "decodeMap c3 = Some d3"
  shows "decodeQuantum 0 [] (c0 # c1 # c2 # c3 # rest) si n
         = (rest, si + 4, quantumBytes [d0, d1, d2, d3] 4, None)"
  using assms by (cases rest) simp_all

lemma decodeQuantum_alphabet3:
  assumes "decodeMap c0 = Some d0" "decodeMap c1 = Some d1" "decodeMap c2 = Some d2"
  shows "decodeQuantum 0 [] [c0, c1, c2, StdPadding] si n
         = ([], si + 4, quantumBytes [d0, d1, d2] 3, None)"
  using assms by (simp add: decodeMap_padding not_isNewline_padding numeral_3_eq_3)

lemma decodeQuantum_alphabet2:
  assumes "decodeMap c0 = Some d0" "decodeMap c1 = Some d1"
  shows "decodeQuantum 0 [] [c0, c1, StdPadding, StdPadding] si n
         = ([], si + 4, quantumBytes [d0, d1] 2, None)"
  using assms by (simp add: decodeMap_padding not_isNewline_padding numeral_2_eq_2)

lemma length_quantumBytes: "dlen \<le> 4 \<Longrightarrow> length (quantumBytes dbuf dlen) = dlen - 1"
  by (simp add: quantumBytes_def Let_def)

text \<open>The groups of an encoding, with the values of their characters.\<close>

lemma EncodeToString_group1:
  "\<exists>e0 e1 d0 d1. EncodeToString [a] = [e0, e1, StdPadding, StdPadding] \<and>
     decodeMap e0 = Some d0 \<and> decodeMap e1 = Some d1 \<and> quantumBytes [d0, d1] 2 = [a]"
proof -
  define v where "v = (of_char a :: nat) * 65536"
  have enc: "EncodeToString [a] =
      [encode6 (v div 262144), encode6 (v div 4096), StdPadding, StdPadding]"
    by (simp add: Let_def push_bit_eq_mult drop_bit_eq_div v_def)
  have "Decode (EncodeToString [a]) 0 0 = ([a], None)"
    by (rule Decode_EncodeToString)
  then have "quantumBytes [v div 262144 mod 64, v div 4096 mod 64] 2 = [a]"
    unfolding enc by (simp only: Decode.simps decodeQuantum_pad2) simp
  with enc decodeMap_encode6 show ?thesis by blast
qed

lemma EncodeToString_group2:
  "\<exists>e0 e1 e2 d0 d1 d2. EncodeToString [a, b] = [e0, e1, e2, StdPadding] \<and>
     decodeMap e0 = Some d0 \<and> decodeMap e1 = Some d1 \<and> decodeMap e2 = Some d2 \<and>
     quantumBytes [d0, d1, d2] 3 = [a, b]"
proof -
  define v where "v = (of_char a :: nat) * 65536 + of_char b * 256"
  have enc: "EncodeToString [a, b] =
      [encode6 (v div 262144), encode6 (v div 4096), encode6 (v div 64), StdPadding]"
    by (simp only: EncodeToString_2 Let_def v_def)
  have "Decode (EncodeToString [a, b]) 0 0 = ([a, b], None)"
    by (rule Decode_EncodeToString)
  then have "quantumBytes [v div 262144 mod 64, v div 4096 mod 64, v div 64 mod 64] 3 = [a, b]"
    unfolding enc by (simp only: Decode.simps decodeQuantum_pad1) simp
  with enc decodeMap_encode6 show ?thesis by blast
qed

lemma EncodeToString_group3:
  "\<exists>e0 e1 e2 e3 d0 d1 d2 d3.
     EncodeToString (a # b # c # rest) = e0 # e1 # e2 # e3 # EncodeToString rest \<and>
     decodeMap e0 = Some d0 \<and> decodeMap e1 = Some d1 \<and> decodeMap e2 = Some d2 \<and>
     decodeMap e3 = Some d3 \<and> quantumBytes [d0, d1, d2, d3] 4 = [a, b, c]"
proof -
  define v where "v = (of_char a :: nat) * 65536 + of_char b * 256 + of_char c"
  have enc: "EncodeToString (a # b # c # rest) =
      encode6 (v div 262144) # encode6 (v div 4096) # encode6 (v div 64) # encode6 v #
      EncodeToString rest"
    by (simp only: EncodeToString_3 Let_def v_def)
  have "quantumBytes [v div 262144 mod 64, v div 4096 mod 64, v div 64 mod 64, v mod 64] 4
      = [a, b, c]"
    unfolding v_def by (rule quantumBytes_of_3)
  with enc decodeMap_encode6 show ?thesis by blast
qed

text \<open>Decoding a group of characters of the alphabet.\<close>

lemma Decode_group2:
  assumes "decodeMap c0 = Some d0" "decodeMap c1 = Some d1"
  shows "Decode [c0, c1, StdPadding, StdPadding] si n = (quantumBytes [d0, d1] 2, None)"
  by (simp only: Decode.simps decodeQuantum_alphabet2 [OF assms]) simp

lemma Decode_group3:
  assumes "decodeMap c0 = Some d0" "decodeMap c1 = Some d1" "decodeMap c2 = Some d2"
  shows "Decode [c0, c1, c2, StdPadding] si n = (quantumBytes [d0, d1, d2] 3, None)"
  by (simp only: Decode.simps decodeQuantum_alphabet3 [OF assms]) simp

lemma Decode_group4:
  assumes "decodeMap c0 = Some d0" "decodeMap c1 = Some d1" "decodeMap c2 = Some d2"
    "decodeMap c3 = Some d3"
  shows "Decode (c0 # c1 # c2 # c3 # EncodeToString rest) si n
         = (quantumBytes [d0, d1, d2, d3] 4 @ rest, None)"
  by (simp only: Decode.simps decodeQuantum_alphabet4 [OF assms]) (simp add: Decode_EncodeToString)

lemma lt4_cases:
  fixes i :: nat
  assumes "i < 4"
  obtains "i = 0" | "i = 1" | "i = 2" | "i = 3"
  using assms by linarith

lemma padding_not_alphabet: "decodeMap c = Some d \<Longrightarrow> c \<noteq> StdPadding"
  using decodeMap_padding by auto

lemma EncodeToString_not_padding_only:
  "EncodeToString rest \<noteq> [StdPadding, StdPadding]" "EncodeToString rest \<noteq> [StdPadding]"
  by (cases rest rule: EncodeToString.cases; simp add: Let_def)+

text \<open>
  One character of an encoding, not a padding character, replaced by a character of the
  alphabet: the result decodes, to as many bytes, and to the same bytes exactly when the
  two characters differ in unused bits only.
\<close>

lemma Decode_changed_char:
  assumes "i < length (EncodeToString h)"
    and "decodeMap (EncodeToString h ! i) = Some d" and "decodeMap x = Some d'"
  shows "\<exists>h'. Decode ((EncodeToString h)[i := x]) si n = (h', None) \<and>
           length h' = length h \<and>
           (h' = h \<longleftrightarrow> d' div 2 ^ unusedBits (EncodeToString h) i
                          = d div 2 ^ unusedBits (EncodeToString h) i)"
  using assms
proof (induction h arbitrary: i si rule: EncodeToString.induct)
  case 1
  then show ?case by simp
next
  case (2 a)
  obtain e0 e1 d0 d1 where E: "EncodeToString [a] = [e0, e1, StdPadding, StdPadding]"
    and m: "decodeMap e0 = Some d0" "decodeMap e1 = Some d1"
    and q: "quantumBytes [d0, d1] 2 = [a]"
    using EncodeToString_group1 [of a] by blast
  note x = "2.prems"(3)
  note lt = decodeMap_Some(1) [OF m(1)] decodeMap_Some(1) [OF m(2)] decodeMap_Some(1) [OF x]
  from "2.prems"(1) have "i < 4" unfolding E by simp
  then show ?case
  proof (cases rule: lt4_cases)
    case 1
    have u: "unusedBits (EncodeToString [a]) i = 0" unfolding E 1 by (simp add: unusedBits_def)
    from "2.prems"(2) m(1) have d: "d = d0" unfolding E 1 by simp
    have "Decode ((EncodeToString [a])[i := x]) si n = (quantumBytes [d', d1] 2, None)"
      unfolding E 1 using Decode_group2 [OF x m(2)] by simp
    moreover have "quantumBytes [d', d1] 2 = [a] \<longleftrightarrow> d' = d0"
      unfolding q [symmetric] quantumBytes2_eq_iff [OF lt(3,2) lt(1,2)] by simp
    ultimately show ?thesis unfolding u d by (simp add: length_quantumBytes)
  next
    case 2
    have u: "unusedBits (EncodeToString [a]) i = 4" unfolding E 2 by (simp add: unusedBits_def)
    from "2.prems"(2) m(2) have d: "d = d1" unfolding E 2 by simp
    have "Decode ((EncodeToString [a])[i := x]) si n = (quantumBytes [d0, d'] 2, None)"
      unfolding E 2 using Decode_group2 [OF m(1) x] by simp
    moreover have "quantumBytes [d0, d'] 2 = [a] \<longleftrightarrow> d' div 16 = d1 div 16"
      unfolding q [symmetric] quantumBytes2_eq_iff [OF lt(1,3) lt(1,2)] by simp
    ultimately show ?thesis unfolding u d by (simp add: length_quantumBytes)
  next
    case 3
    with "2.prems"(2) show ?thesis unfolding E by (simp add: decodeMap_padding)
  next
    case 4
    with "2.prems"(2) show ?thesis unfolding E by (simp add: decodeMap_padding)
  qed
next
  case (3 a b)
  obtain e0 e1 e2 d0 d1 d2 where E: "EncodeToString [a, b] = [e0, e1, e2, StdPadding]"
    and m: "decodeMap e0 = Some d0" "decodeMap e1 = Some d1" "decodeMap e2 = Some d2"
    and q: "quantumBytes [d0, d1, d2] 3 = [a, b]"
    using EncodeToString_group2 [of a b] by blast
  note x = "3.prems"(3)
  note lt = decodeMap_Some(1) [OF m(1)] decodeMap_Some(1) [OF m(2)] decodeMap_Some(1) [OF m(3)]
    decodeMap_Some(1) [OF x]
  from "3.prems"(1) have "i < 4" unfolding E by simp
  then show ?case
  proof (cases rule: lt4_cases)
    case 1
    have u: "unusedBits (EncodeToString [a, b]) i = 0"
      unfolding E 1 by (simp add: unusedBits_def)
    from "3.prems"(2) m(1) have d: "d = d0" unfolding E 1 by simp
    have "Decode ((EncodeToString [a, b])[i := x]) si n = (quantumBytes [d', d1, d2] 3, None)"
      unfolding E 1 using Decode_group3 [OF x m(2,3)] by simp
    moreover have "quantumBytes [d', d1, d2] 3 = [a, b] \<longleftrightarrow> d' = d0"
      unfolding q [symmetric] quantumBytes3_eq_iff [OF lt(4,2,3) lt(1,2,3)] by simp
    ultimately show ?thesis unfolding u d by (simp add: length_quantumBytes)
  next
    case 2
    have u: "unusedBits (EncodeToString [a, b]) i = 0"
      unfolding E 2 using padding_not_alphabet [OF m(3)] by (simp add: unusedBits_def)
    from "3.prems"(2) m(2) have d: "d = d1" unfolding E 2 by simp
    have "Decode ((EncodeToString [a, b])[i := x]) si n = (quantumBytes [d0, d', d2] 3, None)"
      unfolding E 2 using Decode_group3 [OF m(1) x m(3)] by simp
    moreover have "quantumBytes [d0, d', d2] 3 = [a, b] \<longleftrightarrow> d' = d1"
      unfolding q [symmetric] quantumBytes3_eq_iff [OF lt(1,4,3) lt(1,2,3)] by simp
    ultimately show ?thesis unfolding u d by (simp add: length_quantumBytes)
  next
    case 3
    have u: "unusedBits (EncodeToString [a, b]) i = 2"
      unfolding E 3 by (simp add: unusedBits_def)
    from "3.prems"(2) m(3) have d: "d = d2" unfolding E 3 by simp
    have "Decode ((EncodeToString [a, b])[i := x]) si n = (quantumBytes [d0, d1, d'] 3, None)"
      unfolding E 3 using Decode_group3 [OF m(1,2) x] by simp
    moreover have "quantumBytes [d0, d1, d'] 3 = [a, b] \<longleftrightarrow> d' div 4 = d2 div 4"
      unfolding q [symmetric] quantumBytes3_eq_iff [OF lt(1,2,4) lt(1,2,3)] by simp
    ultimately show ?thesis unfolding u d by (simp add: length_quantumBytes)
  next
    case 4
    with "3.prems"(2) show ?thesis unfolding E by (simp add: decodeMap_padding)
  qed
next
  case (4 a b c rest)
  obtain e0 e1 e2 e3 d0 d1 d2 d3
    where E: "EncodeToString (a # b # c # rest) = e0 # e1 # e2 # e3 # EncodeToString rest"
    and m: "decodeMap e0 = Some d0" "decodeMap e1 = Some d1" "decodeMap e2 = Some d2"
      "decodeMap e3 = Some d3"
    and q: "quantumBytes [d0, d1, d2, d3] 4 = [a, b, c]"
    using EncodeToString_group3 [of a b c rest] by blast
  note x = "4.prems"(3)
  note lt = decodeMap_Some(1) [OF m(1)] decodeMap_Some(1) [OF m(2)] decodeMap_Some(1) [OF m(3)]
    decodeMap_Some(1) [OF m(4)] decodeMap_Some(1) [OF x]
  note np = padding_not_alphabet [OF m(1)] padding_not_alphabet [OF m(2)]
    padding_not_alphabet [OF m(3)] padding_not_alphabet [OF m(4)]
  show ?case
  proof (cases "i < 4")
    case True
    have u: "unusedBits (EncodeToString (a # b # c # rest)) i = 0"
      using True np EncodeToString_not_padding_only [of rest] unfolding E
      by (cases rule: lt4_cases [OF True]) (simp_all add: unusedBits_def)
    from True show ?thesis
    proof (cases rule: lt4_cases)
      case 1
      from "4.prems"(2) m(1) have d: "d = d0" unfolding E 1 by simp
      have "Decode ((EncodeToString (a # b # c # rest))[i := x]) si n
          = (quantumBytes [d', d1, d2, d3] 4 @ rest, None)"
        unfolding E 1 using Decode_group4 [OF x m(2,3,4)] by simp
      moreover have "quantumBytes [d', d1, d2, d3] 4 = [a, b, c] \<longleftrightarrow> d' = d0"
        unfolding q [symmetric] quantumBytes4_eq_iff [OF lt(5,2,3,4) lt(1,2,3,4)] by simp
      moreover have "length (quantumBytes [d', d1, d2, d3] 4) = 3"
        by (simp add: length_quantumBytes)
      ultimately show ?thesis unfolding u d by simp
    next
      case 2
      from "4.prems"(2) m(2) have d: "d = d1" unfolding E 2 by simp
      have "Decode ((EncodeToString (a # b # c # rest))[i := x]) si n
          = (quantumBytes [d0, d', d2, d3] 4 @ rest, None)"
        unfolding E 2 using Decode_group4 [OF m(1) x m(3,4)] by simp
      moreover have "quantumBytes [d0, d', d2, d3] 4 = [a, b, c] \<longleftrightarrow> d' = d1"
        unfolding q [symmetric] quantumBytes4_eq_iff [OF lt(1,5,3,4) lt(1,2,3,4)] by simp
      moreover have "length (quantumBytes [d0, d', d2, d3] 4) = 3"
        by (simp add: length_quantumBytes)
      ultimately show ?thesis unfolding u d by simp
    next
      case 3
      from "4.prems"(2) m(3) have d: "d = d2" unfolding E 3 by simp
      have "Decode ((EncodeToString (a # b # c # rest))[i := x]) si n
          = (quantumBytes [d0, d1, d', d3] 4 @ rest, None)"
        unfolding E 3 using Decode_group4 [OF m(1,2) x m(4)] by simp
      moreover have "quantumBytes [d0, d1, d', d3] 4 = [a, b, c] \<longleftrightarrow> d' = d2"
        unfolding q [symmetric] quantumBytes4_eq_iff [OF lt(1,2,5,4) lt(1,2,3,4)] by simp
      moreover have "length (quantumBytes [d0, d1, d', d3] 4) = 3"
        by (simp add: length_quantumBytes)
      ultimately show ?thesis unfolding u d by simp
    next
      case 4
      from "4.prems"(2) m(4) have d: "d = d3" unfolding E 4 by simp
      have "Decode ((EncodeToString (a # b # c # rest))[i := x]) si n
          = (quantumBytes [d0, d1, d2, d'] 4 @ rest, None)"
        unfolding E 4 using Decode_group4 [OF m(1,2,3) x] by simp
      moreover have "quantumBytes [d0, d1, d2, d'] 4 = [a, b, c] \<longleftrightarrow> d' = d3"
        unfolding q [symmetric] quantumBytes4_eq_iff [OF lt(1,2,3,5) lt(1,2,3,4)] by simp
      moreover have "length (quantumBytes [d0, d1, d2, d'] 4) = 3"
        by (simp add: length_quantumBytes)
      ultimately show ?thesis unfolding u d by simp
    qed
  next
    case False
    define k where "k = i - 4"
    from False have i: "i = 4 + k" by (simp add: k_def)
    have E': "EncodeToString (a # b # c # rest) = [e0, e1, e2, e3] @ EncodeToString rest"
      unfolding E by simp
    from "4.prems"(1) have 1: "k < length (EncodeToString rest)" unfolding E i by simp
    from "4.prems"(2) have 2: "decodeMap (EncodeToString rest ! k) = Some d"
      unfolding E' i by (simp add: nth_append)
    have "drop (Suc i) ([e0, e1, e2, e3] @ EncodeToString rest)
        = drop (Suc k) (EncodeToString rest)"
      by (simp add: i numeral_eq_Suc)
    then have u: "unusedBits (EncodeToString (a # b # c # rest)) i
        = unusedBits (EncodeToString rest) k"
      unfolding E' unusedBits_def by (simp only:)
    from "4.IH" [OF refl 1 2 x, of "si + 4"] obtain h'
      where h': "Decode ((EncodeToString rest)[k := x]) (si + 4) n = (h', None)"
        "length h' = length rest"
        "h' = rest \<longleftrightarrow> d' div 2 ^ unusedBits (EncodeToString rest) k
                        = d div 2 ^ unusedBits (EncodeToString rest) k" by blast
    have upd: "(EncodeToString (a # b # c # rest))[i := x]
        = e0 # e1 # e2 # e3 # (EncodeToString rest)[k := x]"
      unfolding E' i by (simp add: list_update_append)
    have "Decode ((EncodeToString (a # b # c # rest))[i := x]) si n = ([a, b, c] @ h', None)"
      unfolding upd
      by (simp only: Decode.simps decodeQuantum_alphabet4 [OF m] q) (simp add: h')
    with h'(2,3) show ?thesis unfolding u by simp
  qed
qed

text \<open>
  The same for a record in the form \<^verbatim>\<open>encodeHashComponents\<close> writes: the position \<open>i\<close>
  lies in the digest field, the last one of the string.
\<close>

lemma VerifyHash_changed_char:
  assumes kdf: "kdf password salt (Time c) (Memory c) (Threads c) (KeyLen c) = Some h"
    and len: "length h = unat (KeyLen c)"
    and enc: "enc = encodeHashComponents salt h c"
    and seg: "length enc - length (EncodeToString h) \<le> i" and i: "i < length enc"
    and old: "decodeMap (enc ! i) = Some d" and new: "decodeMap x = Some d'"
  shows "fst (VerifyHash kdf password (enc[i := x]) w) =
           Returns (d' div 2 ^ unusedBits enc i = d div 2 ^ unusedBits enc i, None)"
proof -
  define pre where "pre = ''$argon2id$v=19$'' @ paramsField c @ ''$'' @ EncodeToString salt @ ''$''"
  define k where "k = i - length pre"
  have e: "enc = pre @ EncodeToString h"
    by (simp add: enc encodeHashComponents_record pre_def)
  from seg have ik: "i = length pre + k" by (simp add: e k_def)
  with i have k: "k < length (EncodeToString h)" by (simp add: e)
  have nth: "enc ! i = EncodeToString h ! k" by (simp add: e ik)
  have "drop (Suc i) enc = drop (Suc k) (EncodeToString h)" by (simp add: e ik)
  then have u: "unusedBits enc i = unusedBits (EncodeToString h) k"
    unfolding unusedBits_def by (simp only:)
  have upd: "enc[i := x] =
      ''$argon2id$v=19$'' @ paramsField c @ ''$'' @ EncodeToString salt @ ''$'' @
      (EncodeToString h)[k := x]"
  proof -
    have "enc[i := x] = pre @ (EncodeToString h)[k := x]"
      by (simp add: e ik list_update_append)
    then show ?thesis by (simp add: pre_def)
  qed
  from Decode_changed_char [OF k old [unfolded nth] new, of 0 "length (EncodeToString h)"]
  obtain h' where h': "DecodeString ((EncodeToString h)[k := x]) = (h', None)"
    "length h' = length h"
    "h' = h \<longleftrightarrow> d' div 2 ^ unusedBits enc i = d div 2 ^ unusedBits enc i"
    unfolding u DecodeString_def by auto
  have "CHR ''$'' \<notin> set encodeStd" by (simp add: encodeStd_def)
  with decodeMap_Some(2) [OF new] have "x \<noteq> CHR ''$''" by auto
  with dollar_notin_EncodeToString [of h] set_update_subset_insert [of "EncodeToString h" k x]
  have dollar: "CHR ''$'' \<notin> set ((EncodeToString h)[k := x])" by auto
  have dh: "decodeHash (enc[i := x]) =
      Inr (\<lparr>Time = Time c, Memory = Memory c, Threads = Threads c,
             KeyLen = of_nat (length h'), SaltLen = of_nat (length salt)\<rparr>, salt, h')"
    unfolding upd by (rule decodeHash_record [OF dollar h'(1)])
  have "(of_nat (length h') :: uint32) = KeyLen c" by (simp add: h'(2) len)
  with VerifyHash_decoded [OF dh, of kdf password w] kdf
  have "fst (VerifyHash kdf password (enc[i := x]) w) = Returns (h = h', None)" by simp
  with h'(3) show ?thesis by (simp add: eq_commute)
qed

lemma changed_char_samples:
  "unusedBits ''$argon2id$v=19$m=8,t=1,p=1$MDEyMw==$cHcwMTI='' 36 = 0"
  "unusedBits ''$argon2id$v=19$m=8,t=1,p=1$MDEyMw==$cHcwMTI='' 42 = 2"
  "decodeMap (''$argon2id$v=19$m=8,t=1,p=1$MDEyMw==$cHcwMTI='' ! 36) = Some 28"
  "decodeMap (''$argon2id$v=19$m=8,t=1,p=1$MDEyMw==$cHcwMTI='' ! 42) = Some 8"
  "decodeMap CHR ''d'' = Some 29" "decodeMap CHR ''J'' = Some 9" "decodeMap CHR ''M'' = Some 12"
  by code_simp+

text \<open>
  C6, as amended. Take a string that \<^verbatim>\<open>GenerateHash\<close> returned, a position \<open>i\<close> in its
  digest segment that holds a character of the base64 alphabet (of value \<open>d\<close>), and
  replace it by a character \<open>x\<close> of the alphabet (of value \<open>d'\<close>). \<^verbatim>\<open>VerifyHash\<close> with
  the original password returns \<^verbatim>\<open>(false, nil)\<close>, unless \<open>d\<close> and \<open>d'\<close> differ only in the
  low bits that the decoder does not use: the four low bits of the character before
  \<^verbatim>\<open>==\<close>, the two low bits of the character before a single \<^verbatim>\<open>=\<close>, no bit of any other
  character. In that case, and only then, it returns \<^verbatim>\<open>(true, nil)\<close>.
\<close>

theorem changed_digest_character_rejected:
  assumes "keyLen_respected kdf"
    and "GenerateHash kdf c password salt w = (Returns (enc, None), w')"
    and "length enc - length (last (strings_Split enc (CHR ''$''))) \<le> i" and "i < length enc"
    and "decodeMap (enc ! i) = Some d" and "decodeMap x = Some d'"
  shows "fst (VerifyHash kdf password (enc[i := x]) w'') =
           Returns (d' div 2 ^ unusedBits enc i = d div 2 ^ unusedBits enc i, None)"
proof -
  from GenerateHash_Returns [OF assms(2)] obtain salt' h
    where kdf: "kdf password salt' (Time c) (Memory c) (Threads c) (KeyLen c) = Some h"
      and enc: "enc = encodeHashComponents salt' h c" by blast
  from assms(1) kdf have len: "length h = unat (KeyLen c)"
    by (auto simp: keyLen_respected_def)
  have "last (strings_Split enc (CHR ''$'')) = EncodeToString h"
    unfolding enc strings_Split_encoded by simp
  with assms(3) have seg: "length enc - length (EncodeToString h) \<le> i" by simp
  show ?thesis
    by (rule VerifyHash_changed_char [where kdf = kdf and password = password,
          OF kdf len enc seg assms(4-6)])
qed

theorem changed_digest_character_rejected_witness:
  "GenerateHash sample_IDKey sample_params ''pw'' [] sample_world =
     (Returns (''$argon2id$v=19$m=8,t=1,p=1$MDEyMw==$cHcwMTI='', None),
      \<lparr>entropy = ''456789abcdefghijklmnopqrstuvwxyz'', derivations = 1, log_lines = []\<rparr>) \<and>
   fst (VerifyHash sample_IDKey ''pw'' ''$argon2id$v=19$m=8,t=1,p=1$MDEyMw==$dHcwMTI=''
     sample_world) = Returns (False, None) \<and>
   fst (VerifyHash sample_IDKey ''pw'' ''$argon2id$v=19$m=8,t=1,p=1$MDEyMw==$cHcwMTM=''
     sample_world) = Returns (False, None) \<and>
   fst (VerifyHash sample_IDKey ''pw'' ''$argon2id$v=19$m=8,t=1,p=1$MDEyMw==$cHcwMTJ=''
     sample_world) = Returns (True, None)"
proof -
  let ?enc = "''$argon2id$v=19$m=8,t=1,p=1$MDEyMw==$cHcwMTI=''"
  note t = changed_digest_character_rejected [OF keyLen_respected_sample GenerateHash_sample,
      where w'' = sample_world]
  have s: "length ?enc - length (last (strings_Split ?enc (CHR ''$''))) \<le> 36"
      "length ?enc - length (last (strings_Split ?enc (CHR ''$''))) \<le> 42"
      "36 < length ?enc" "42 < length ?enc"
    by code_simp+
  from t [OF s(1,3) changed_char_samples(3,5)]
  have 1: "fst (VerifyHash sample_IDKey ''pw'' (?enc[36 := CHR ''d'']) sample_world)
      = Returns (False, None)"
    by (simp add: changed_char_samples(1))
  from t [OF s(2,4) changed_char_samples(4,7)]
  have 2: "fst (VerifyHash sample_IDKey ''pw'' (?enc[42 := CHR ''M'']) sample_world)
      = Returns (False, None)"
    by (simp add: changed_char_samples(2))
  from t [OF s(2,4) changed_char_samples(4,6)]
  have 3: "fst (VerifyHash sample_IDKey ''pw'' (?enc[42 := CHR ''J'']) sample_world)
      = Returns (True, None)"
    by (simp add: changed_char_samples(2))
  have u: "?enc[36 := CHR ''d''] = ''$argon2id$v=19$m=8,t=1,p=1$MDEyMw==$dHcwMTI=''"
      "?enc[42 := CHR ''M''] = ''$argon2id$v=19$m=8,t=1,p=1$MDEyMw==$cHcwMTM=''"
      "?enc[42 := CHR ''J''] = ''$argon2id$v=19$m=8,t=1,p=1$MDEyMw==$cHcwMTJ=''"
    by code_simp+
  from 1 2 3 GenerateHash_sample show ?thesis unfolding u by (intro conjI)
qed

text \<open>
  Outside these replacements the outcome is of another kind: a byte that is not in the
  alphabet makes decoding fail, and an alphabet character in the place of the padding
  gives a digest of another length.
\<close>

lemma replacement_outside_alphabet_samples:
  "fst (VerifyHash sample_IDKey ''pw'' ''$argon2id$v=19$m=8,t=1,p=1$MDEyMw==$!HcwMTI=''
     sample_world) = Returns (False, Some (CorruptInputError 0))"
  "decodeHash ''$argon2id$v=19$m=8,t=1,p=1$MDEyMw==$cHcwMTIA'' =
     Inr (\<lparr>Time = 1, Memory = 8, Threads = 1, KeyLen = 6, SaltLen = 4\<rparr>, ''0123'',
          ''pw012'' @ [CHR 0x00])"
  by code_simp+

end
